theory Spec2Isabelle
  imports Complex_Main
begin

section \<open>Compound spline tracks (Maestro, CompoundSplineTrack.cpp)\<close>

text \<open>
  A shallow embedding of \<^verbatim>\<open>CCompoundSplineTrack\<close>: an animation track made of up to
  four scalar sub-tracks, addressed through one flat key index.

  Conventions of the embedding.
  \<^item> C++ \<^verbatim>\<open>float\<close> is binary32, and a finite float is the real number it denotes.
    Comparisons are exact. The float arithmetic that \<^verbatim>\<open>CompoundSplineTrack.cpp\<close> writes out
    itself with the built-in operators (the difference in \<^verbatim>\<open>SelectKey\<close>, the sum in
    \<^verbatim>\<open>OffsetKeyPosition\<close>, every operation of \<^verbatim>\<open>PreferShortestRotPath\<close>) is rounded to
    binary32 after each operation, see \<open>f32\<close> below. The arithmetic inside the math and
    transform libraries and the degree/radian macros, which come from headers outside
    the files modelled here, is the exact one.
  \<^item> C++ \<^verbatim>\<open>int\<close> is \<open>int\<close>. Key counts are sizes of containers; signed overflow of
    their sum is undefined in C++ and is not modelled.
  \<^item> \<^verbatim>\<open>assert\<close> and \<^verbatim>\<open>AZ_Assert\<close> are compiled out (release configuration): the
    code after a failed assertion runs, which is what the fallback branches
    \<^verbatim>\<open>if (i < 0) return ...\<close> and \<^verbatim>\<open>value.SetIdentity()\<close> are written for. The asserted
    conditions appear as hypotheses where a statement needs them.
  \<^item> A member function that mutates the track returns the updated track.
\<close>

subsection \<open>Binary32 arithmetic\<close>

text \<open>\<^verbatim>\<open>FLT_MAX\<close> of float.h, the largest finite binary32 value, \<open>(2 - 2^-23) * 2^127\<close>.\<close>

definition FLT_MAX :: real where
  "FLT_MAX = 340282346638528859811704183484516925440"

text \<open>Rounding to the nearest integer, a tie going to the even one.\<close>

definition rne :: "real \<Rightarrow> int" where
  "rne q = (let f = \<lfloor>q\<rfloor>; d = q - of_int f
            in if d < 1 / 2 then f else if 1 / 2 < d then f + 1
               else if even f then f else f + 1)"

text \<open>
  The binary exponent of a binary32 value near \<open>x\<close>: that of \<open>x\<close> itself, and \<open>-126\<close>, the
  exponent of the subnormal numbers, below \<open>2^-126\<close>.
\<close>

definition f32_exponent :: "real \<Rightarrow> int" where
  "f32_exponent x = max \<lfloor>log 2 \<bar>x\<bar>\<rfloor> (- 126)"

text \<open>
  Rounding to binary32 in the default mode of IEEE 754 (to nearest, ties to even) with
  no bound on the exponent from above: a significand of 24 bits, so the spacing of the
  binary32 values around \<open>x\<close> is \<open>2 ^ (f32_exponent x - 23)\<close>.
\<close>

definition f32_round :: "real \<Rightarrow> real" where
  "f32_round x =
     (if x = 0 then 0
      else let ulp = 2 powi (f32_exponent x - 23) in of_int (rne (x / ulp)) * ulp)"

text \<open>
  The float result of an operation whose exact result is \<open>x\<close>. When the rounded value
  lies beyond \<^verbatim>\<open>FLT_MAX\<close> the source has an infinity, which is not a real number: the
  result is left unspecified there. Signed zeros are not told apart.
\<close>

definition f32 :: "real \<Rightarrow> real" where
  "f32 x = (let r = f32_round x in if \<bar>r\<bar> \<le> FLT_MAX then r else undefined)"

subsection \<open>Keys and sub-tracks\<close>

text \<open>
  Modelled from the spec: the scalar sub-track (\<^verbatim>\<open>C2DSplineTrack\<close>, declared in
  AnimSplineTrack.h, which lies outside the files modelled here). The spec describes it
  as an ordered sequence of keys \<open>{time, value, selected}\<close> that exposes its key count,
  key time get/set, selection get/set and removal by local index.
\<close>

record key =
  key_time :: real
  key_value :: real
  key_selected :: bool

text \<open>
  Modelled from the spec: a sub-track is its ordered sequence of keys plus its own
  interpolation, which the spec leaves to the sub-track; \<open>interpolate\<close> is that
  unspecified part, consulted only where no key is stored at the time asked for.
\<close>

record subtrack =
  keys :: "key list"
  interpolate :: "key list \<Rightarrow> real \<Rightarrow> real"

text \<open>Modelled from the spec: the key count of a sub-track.\<close>

definition sub_GetNumKeys :: "subtrack \<Rightarrow> int" where
  "sub_GetNumKeys s = int (length (keys s))"

text \<open>
  Modelled from the spec: key time and selection flag by local index. The spec says
  nothing about a local index outside the sub-track; it is left unspecified here.
\<close>

definition sub_GetKeyTime :: "subtrack \<Rightarrow> int \<Rightarrow> real" where
  "sub_GetKeyTime s k =
     (if 0 \<le> k \<and> k < sub_GetNumKeys s then key_time (keys s ! nat k) else undefined)"

definition sub_IsKeySelected :: "subtrack \<Rightarrow> int \<Rightarrow> bool" where
  "sub_IsKeySelected s k =
     (if 0 \<le> k \<and> k < sub_GetNumKeys s then key_selected (keys s ! nat k) else undefined)"

text \<open>Modelled from the spec: selection set, key time set and removal by local index.\<close>

definition sub_SelectKey :: "subtrack \<Rightarrow> int \<Rightarrow> bool \<Rightarrow> subtrack" where
  "sub_SelectKey s k sel =
     (if 0 \<le> k \<and> k < sub_GetNumKeys s
      then s\<lparr>keys := (keys s)[nat k := (keys s ! nat k)\<lparr>key_selected := sel\<rparr>]\<rparr> else s)"

definition sub_SetKeyTime :: "subtrack \<Rightarrow> int \<Rightarrow> real \<Rightarrow> subtrack" where
  "sub_SetKeyTime s k t =
     (if 0 \<le> k \<and> k < sub_GetNumKeys s
      then s\<lparr>keys := (keys s)[nat k := (keys s ! nat k)\<lparr>key_time := t\<rparr>]\<rparr> else s)"

definition sub_RemoveKey :: "subtrack \<Rightarrow> int \<Rightarrow> subtrack" where
  "sub_RemoveKey s k =
     (if 0 \<le> k \<and> k < sub_GetNumKeys s
      then s\<lparr>keys := take (nat k) (keys s) @ drop (Suc (nat k)) (keys s)\<rparr> else s)"

text \<open>
  Modelled from the spec: \<^verbatim>\<open>GetValue(time) -> scalar\<close> and \<^verbatim>\<open>SetValue(time, scalar,
  isDefault, applyMultiplier)\<close> of the sub-track. A key stored at exactly that time is
  read back and overwritten in place (the first one, where several keys share the
  time); a write at a time without a key creates the key there, in time order
  (write-through). Between keys the sub-track's own interpolation decides what is read.
  The spec leaves the effect of \<open>isDefault\<close> and \<open>applyMultiplier\<close> inside the sub-track;
  they are passed on and not interpreted here, and every statement below about stored
  values is about calls that leave both at \<open>false\<close>, the default arguments of the source.
\<close>

definition keyAt :: "key list \<Rightarrow> real \<Rightarrow> key option" where
  "keyAt ks time = find (\<lambda>k. key_time k = time) ks"

fun setKeyValue :: "real \<Rightarrow> real \<Rightarrow> key list \<Rightarrow> key list" where
  "setKeyValue time v [] = []"
| "setKeyValue time v (k # ks) =
     (if key_time k = time then k\<lparr>key_value := v\<rparr> # ks else k # setKeyValue time v ks)"

fun insertKey :: "key \<Rightarrow> key list \<Rightarrow> key list" where
  "insertKey new [] = [new]"
| "insertKey new (k # ks) =
     (if key_time new < key_time k then new # k # ks else k # insertKey new ks)"

definition sub_GetValue :: "subtrack \<Rightarrow> real \<Rightarrow> bool \<Rightarrow> real" where
  "sub_GetValue s time applyMultiplier =
     (case keyAt (keys s) time of
        Some k \<Rightarrow> key_value k
      | None \<Rightarrow> interpolate s (keys s) time)"

definition sub_SetValue :: "subtrack \<Rightarrow> real \<Rightarrow> real \<Rightarrow> bool \<Rightarrow> bool \<Rightarrow> subtrack" where
  "sub_SetValue s time v bDefault applyMultiplier =
     (case keyAt (keys s) time of
        Some k \<Rightarrow> s\<lparr>keys := setKeyValue time v (keys s)\<rparr>
      | None \<Rightarrow> s\<lparr>keys := insertKey \<lparr>key_time = time, key_value = v, key_selected = False\<rparr> (keys s)\<rparr>)"

subsection \<open>Vectors and quaternions\<close>

text \<open>
  \<^verbatim>\<open>Vec3\<close>, \<^verbatim>\<open>Ang3\<close> and \<^verbatim>\<open>AZ::Vector3\<close> are three floats, \<^verbatim>\<open>Vec4\<close> four, indexed from 0.
  An index outside the vector is undefined behaviour in the source: a read there is
  unspecified in the model and a write there is dropped.
\<close>

record Vec3 =
  vx :: real
  vy :: real
  vz :: real

definition Vec3_at :: "Vec3 \<Rightarrow> int \<Rightarrow> real" where
  "Vec3_at v i = (if i = 0 then vx v else if i = 1 then vy v else if i = 2 then vz v else undefined)"

definition Vec3_set :: "Vec3 \<Rightarrow> int \<Rightarrow> real \<Rightarrow> Vec3" where
  "Vec3_set v i a =
     (if i = 0 then v\<lparr>vx := a\<rparr> else if i = 1 then v\<lparr>vy := a\<rparr> else if i = 2 then v\<lparr>vz := a\<rparr> else v)"

record Vec4 =
  wx :: real
  wy :: real
  wz :: real
  ww :: real

definition Vec4_at :: "Vec4 \<Rightarrow> int \<Rightarrow> real" where
  "Vec4_at v i =
     (if i = 0 then wx v else if i = 1 then wy v else if i = 2 then wz v
      else if i = 3 then ww v else undefined)"

definition Vec4_set :: "Vec4 \<Rightarrow> int \<Rightarrow> real \<Rightarrow> Vec4" where
  "Vec4_set v i a =
     (if i = 0 then v\<lparr>wx := a\<rparr> else if i = 1 then v\<lparr>wy := a\<rparr> else if i = 2 then v\<lparr>wz := a\<rparr>
      else if i = 3 then v\<lparr>ww := a\<rparr> else v)"

text \<open>\<^verbatim>\<open>Quat\<close>, with \<^verbatim>\<open>SetIdentity()\<close>: scalar part 1, vector part 0.\<close>

record Quat =
  qw :: real
  qx :: real
  qy :: real
  qz :: real

definition Quat_identity :: Quat where
  "Quat_identity = \<lparr>qw = 1, qx = 0, qy = 0, qz = 0\<rparr>"

text \<open>The macros \<^verbatim>\<open>DEG2RAD\<close> and \<^verbatim>\<open>RAD2DEG\<close>.\<close>

definition DEG2RAD :: "real \<Rightarrow> real" where
  "DEG2RAD a = a * (pi / 180)"

definition RAD2DEG :: "real \<Rightarrow> real" where
  "RAD2DEG a = a * (180 / pi)"

subsection \<open>The compound track\<close>

text \<open>
  \<^verbatim>\<open>AnimParamType\<close> (Maestro/Types/AnimParamType.h) has many members; the code
  distinguishes three of them, the rest is \<open>OtherParam\<close>.
\<close>

datatype AnimParamType = Invalid | Position | Rotation | Scale | OtherParam

text \<open>
  The fields of \<^verbatim>\<open>CCompoundSplineTrack\<close> that the modelled member functions read.
  \<^verbatim>\<open>m_subTracks\<close> is a vector of four owning pointers of which the constructor fills the
  first \<^verbatim>\<open>m_nDimensions\<close>; the list below holds the sub-tracks pointed to, and \<open>track_ok\<close>
  is the constructor's guarantee that every active slot has one.
\<close>

record track =
  m_nDimensions :: int
  m_nParamType :: AnimParamType
  m_subTracks :: "subtrack list"

definition MAX_SUBTRACKS :: int where
  "MAX_SUBTRACKS = 4"

definition track_ok :: "track \<Rightarrow> bool" where
  "track_ok tr = (0 \<le> m_nDimensions tr \<and> m_nDimensions tr \<le> MAX_SUBTRACKS
                  \<and> m_nDimensions tr \<le> int (length (m_subTracks tr)))"

text \<open>\<^verbatim>\<open>m_subTracks[i]\<close>.\<close>

definition subTrack :: "track \<Rightarrow> int \<Rightarrow> subtrack" where
  "subTrack tr i = m_subTracks tr ! nat i"

text \<open>\<^verbatim>\<open>for (int i = lo; i < n; i++) body(i)\<close> over a state.\<close>

function for_loop :: "int \<Rightarrow> int \<Rightarrow> (int \<Rightarrow> 'a \<Rightarrow> 'a) \<Rightarrow> 'a \<Rightarrow> 'a" where
  "for_loop i n body s = (if i < n then for_loop (i + 1) n body (body i s) else s)"
  by pat_completeness auto
termination
  by (relation "measure (\<lambda>(i, n, body, s). nat (n - i))") auto

declare for_loop.simps [simp del]

subsection \<open>Flat key indices\<close>

text \<open>\<^verbatim>\<open>GetNumKeys\<close>: the key counts of the active sub-tracks, summed.\<close>

definition GetNumKeys :: "track \<Rightarrow> int" where
  "GetNumKeys tr =
     for_loop 0 (m_nDimensions tr) (\<lambda>i nKeys. nKeys + sub_GetNumKeys (subTrack tr i)) 0"

text \<open>
  \<^verbatim>\<open>GetSubTrackIndex(int& key)\<close> returns the sub-track index and overwrites \<^verbatim>\<open>key\<close> with
  the local index; the model returns the pair. When no sub-track owns the key the
  result is \<open>-1\<close> and \<^verbatim>\<open>key\<close> is left as it was.
\<close>

function GetSubTrackIndex_loop :: "track \<Rightarrow> int \<Rightarrow> int \<Rightarrow> int \<Rightarrow> int \<times> int" where
  "GetSubTrackIndex_loop tr key i count =
     (if i < m_nDimensions tr then
        (if key < count + sub_GetNumKeys (subTrack tr i) then (i, key - count)
         else GetSubTrackIndex_loop tr key (i + 1) (count + sub_GetNumKeys (subTrack tr i)))
      else (- 1, key))"
  by pat_completeness auto
termination
  by (relation "measure (\<lambda>(tr, key, i, count). nat (m_nDimensions tr - i))") auto

declare GetSubTrackIndex_loop.simps [simp del]

definition GetSubTrackIndex :: "track \<Rightarrow> int \<Rightarrow> int \<times> int" where
  "GetSubTrackIndex tr key = GetSubTrackIndex_loop tr key 0 0"

text \<open>The number of keys that precede sub-track \<open>i\<close> in the flat order.\<close>

definition keysBefore :: "track \<Rightarrow> int \<Rightarrow> int" where
  "keysBefore tr i = (\<Sum>j < nat i. sub_GetNumKeys (m_subTracks tr ! j))"

subsection \<open>Operations on a flat index\<close>

text \<open>\<^verbatim>\<open>m_subTracks[i]->f(...)\<close> for a mutating \<open>f\<close>.\<close>

definition updSubTrack :: "track \<Rightarrow> int \<Rightarrow> (subtrack \<Rightarrow> subtrack) \<Rightarrow> track" where
  "updSubTrack tr i f = tr\<lparr>m_subTracks := (m_subTracks tr)[nat i := f (subTrack tr i)]\<rparr>"

definition RemoveKey :: "track \<Rightarrow> int \<Rightarrow> track" where
  "RemoveKey tr num =
     (case GetSubTrackIndex tr num of (i, num') \<Rightarrow>
        if i < 0 then tr else updSubTrack tr i (\<lambda>s. sub_RemoveKey s num'))"

definition GetKeyTime :: "track \<Rightarrow> int \<Rightarrow> real" where
  "GetKeyTime tr index =
     (case GetSubTrackIndex tr index of (i, index') \<Rightarrow>
        if i < 0 then 0 else sub_GetKeyTime (subTrack tr i) index')"

definition SetKeyTime :: "track \<Rightarrow> int \<Rightarrow> real \<Rightarrow> track" where
  "SetKeyTime tr index t =
     (case GetSubTrackIndex tr index of (i, index') \<Rightarrow>
        if i < 0 then tr else updSubTrack tr i (\<lambda>s. sub_SetKeyTime s index' t))"

definition IsKeySelected :: "track \<Rightarrow> int \<Rightarrow> bool" where
  "IsKeySelected tr key =
     (case GetSubTrackIndex tr key of (i, key') \<Rightarrow>
        if i < 0 then False else sub_IsKeySelected (subTrack tr i) key')"

text \<open>
  \<^verbatim>\<open>const float timeEpsilon = 0.001f\<close>: the binary32 value nearest to 1/1000, which is
  \<open>8589935 / 2^33\<close>.
\<close>

definition timeEpsilon :: real where
  "timeEpsilon = 8589935 / 2 ^ 33"

text \<open>
  The inner loop of \<^verbatim>\<open>SelectKey\<close> over the keys \<open>m\<close> of one sub-track: the first key
  with \<^verbatim>\<open>fabs(GetKeyTime(m) - keyTime) < timeEpsilon\<close> gets the flag, and the loop breaks.
  The difference is a float: it is rounded before it is compared. A difference that
  overflows is an infinity in the source and lies beyond \<^verbatim>\<open>FLT_MAX\<close> here, and is not
  below \<open>timeEpsilon\<close> either way.
\<close>

function SelectKey_inner :: "subtrack \<Rightarrow> real \<Rightarrow> bool \<Rightarrow> int \<Rightarrow> subtrack" where
  "SelectKey_inner s keyTime select m =
     (if m < sub_GetNumKeys s then
        (if \<bar>f32_round (sub_GetKeyTime s m - keyTime)\<bar> < timeEpsilon
         then sub_SelectKey s m select
         else SelectKey_inner s keyTime select (m + 1))
      else s)"
  by pat_completeness auto
termination
  by (relation "measure (\<lambda>(s, keyTime, select, m). nat (sub_GetNumKeys s - m))") auto

declare SelectKey_inner.simps [simp del]

definition SelectKey :: "track \<Rightarrow> int \<Rightarrow> bool \<Rightarrow> track" where
  "SelectKey tr key select =
     (case GetSubTrackIndex tr key of (i, key') \<Rightarrow>
        if i < 0 then tr
        else let keyTime = sub_GetKeyTime (subTrack tr i) key' in
          for_loop 0 (m_nDimensions tr)
            (\<lambda>k tr'. updSubTrack tr' k (\<lambda>s. SelectKey_inner s keyTime select 0)) tr)"

text \<open>
  Modelled from the spec: \<^verbatim>\<open>GetSubTrackCount()\<close> is declared in CompoundSplineTrack.h,
  which lies outside the files modelled here; the spec has \<^verbatim>\<open>NextKeyByTime\<close> range over
  the active sub-tracks.
\<close>

definition GetSubTrackCount :: "track \<Rightarrow> int" where
  "GetSubTrackCount tr = m_nDimensions tr"

text \<open>
  The inner loop of \<^verbatim>\<open>NextKeyByTime\<close> over the keys \<open>k\<close> of sub-track \<open>s\<close>, on the pair
  \<open>(result, timeNext)\<close>: it stops at the first key later than \<open>time\<close>, which replaces
  the candidate only when it is earlier than \<open>timeNext\<close>.
\<close>

function NextKeyByTime_inner ::
  "subtrack \<Rightarrow> real \<Rightarrow> int \<Rightarrow> int \<Rightarrow> int \<times> real \<Rightarrow> int \<times> real" where
  "NextKeyByTime_inner s time count k (result, timeNext) =
     (if k < sub_GetNumKeys s then
        (let t = sub_GetKeyTime s k in
         if t > time then (if t < timeNext then (count + k, t) else (result, timeNext))
         else NextKeyByTime_inner s time count (k + 1) (result, timeNext))
      else (result, timeNext))"
  by pat_completeness auto
termination
  by (relation "measure (\<lambda>(s, time, count, k, rt). nat (sub_GetNumKeys s - k))") auto

declare NextKeyByTime_inner.simps [simp del]

text \<open>The outer loop, on the triple \<open>(count, result, timeNext)\<close>.\<close>

definition NextKeyByTime_body :: "track \<Rightarrow> real \<Rightarrow> int \<Rightarrow> int \<times> int \<times> real \<Rightarrow> int \<times> int \<times> real" where
  "NextKeyByTime_body tr time i st =
     (case st of (count, rt) \<Rightarrow>
        (count + sub_GetNumKeys (subTrack tr i),
         NextKeyByTime_inner (subTrack tr i) time count 0 rt))"

definition NextKeyByTime :: "track \<Rightarrow> int \<Rightarrow> int" where
  "NextKeyByTime tr key =
     (let time = GetKeyTime tr key in
      fst (snd (for_loop 0 (GetSubTrackCount tr) (NextKeyByTime_body tr time) (0, - 1, FLT_MAX))))"

subsection \<open>Rotation continuity\<close>

text \<open>
  Modelled from the spec: \<^verbatim>\<open>fmod_tpl\<close> comes from the engine's math header, which lies
  outside the files modelled here. The spec calls it \<open>previous mod 360\<close>, a remainder with
  the sign of \<open>previous\<close>: the C library's \<^verbatim>\<open>fmodf\<close>, \<open>x - y * trunc (x / y)\<close>, whose result
  is a binary32 value whenever \<open>x\<close> and \<open>y\<close> are, so that it involves no rounding.
\<close>

definition trunc :: "real \<Rightarrow> int" where
  "trunc r = (if 0 \<le> r then \<lfloor>r\<rfloor> else \<lceil>r\<rceil>)"

definition fmod_tpl :: "real \<Rightarrow> real \<Rightarrow> real" where
  "fmod_tpl a b = a - b * of_int (trunc (a / b))"

text \<open>
  \<^verbatim>\<open>PreferShortestRotPath\<close>, lines 420-444. Every difference, quotient, product and sum is
  a float operation of its own and is rounded, the operands of the comparison included.
\<close>

definition PreferShortestRotPath :: "real \<Rightarrow> real \<Rightarrow> real" where
  "PreferShortestRotPath degree degree0 =
     (let degree00 = degree0;
          degree0 = fmod_tpl degree0 360;
          n = f32 (f32 (degree00 - degree0) / 360);
          degreeAlt = (if degree \<ge> 0 then f32 (degree - 360) else f32 (degree + 360))
      in if \<bar>f32 (degreeAlt - degree0)\<bar> < \<bar>f32 (degree - degree0)\<bar>
         then f32 (degreeAlt + f32 (n * 360))
         else f32 (degree + f32 (n * 360)))"

subsection \<open>Reading and writing values\<close>

text \<open>
  The output parameter of each \<^verbatim>\<open>GetValue\<close> is passed in and returned: the source leaves
  it as it was where no sub-track is read. The float shape loops while
  \<^verbatim>\<open>i < 1 && i < m_nDimensions\<close>, that is, below the smaller of the two bounds.
\<close>

definition GetValue_float :: "track \<Rightarrow> real \<Rightarrow> real \<Rightarrow> bool \<Rightarrow> real" where
  "GetValue_float tr time value0 applyMultiplier =
     for_loop 0 (min 1 (m_nDimensions tr))
       (\<lambda>i v. sub_GetValue (subTrack tr i) time applyMultiplier) value0"

definition GetValue_Vec3 :: "track \<Rightarrow> real \<Rightarrow> Vec3 \<Rightarrow> bool \<Rightarrow> Vec3" where
  "GetValue_Vec3 tr time value0 applyMultiplier =
     for_loop 0 (m_nDimensions tr)
       (\<lambda>i v. Vec3_set v i (sub_GetValue (subTrack tr i) time applyMultiplier)) value0"

definition GetValue_Vec4 :: "track \<Rightarrow> real \<Rightarrow> Vec4 \<Rightarrow> bool \<Rightarrow> Vec4" where
  "GetValue_Vec4 tr time value0 applyMultiplier =
     for_loop 0 (m_nDimensions tr)
       (\<lambda>i v. Vec4_set v i (sub_GetValue (subTrack tr i) time applyMultiplier)) value0"

text \<open>
  \<^verbatim>\<open>Quat::CreateRotationXYZ\<close> and \<^verbatim>\<open>Ang3::GetAnglesXYZ\<close> belong to the engine's math
  library; the two quaternion shapes take them as parameters.
\<close>

definition GetValue_Quat :: "(Vec3 \<Rightarrow> Quat) \<Rightarrow> track \<Rightarrow> real \<Rightarrow> Quat" where
  "GetValue_Quat CreateRotationXYZ tr time =
     (if m_nDimensions tr = 3 then
        (let angles = for_loop 0 (m_nDimensions tr)
                        (\<lambda>i a. Vec3_set a i (sub_GetValue (subTrack tr i) time False))
                        \<lparr>vx = 0, vy = 0, vz = 0\<rparr>
         in CreateRotationXYZ \<lparr>vx = DEG2RAD (Vec3_at angles 0), vy = DEG2RAD (Vec3_at angles 1),
                               vz = DEG2RAD (Vec3_at angles 2)\<rparr>)
      else Quat_identity)"

definition SetValue_float :: "track \<Rightarrow> real \<Rightarrow> real \<Rightarrow> bool \<Rightarrow> bool \<Rightarrow> track" where
  "SetValue_float tr time v bDefault applyMultiplier =
     for_loop 0 (m_nDimensions tr)
       (\<lambda>i tr'. updSubTrack tr' i (\<lambda>s. sub_SetValue s time v bDefault applyMultiplier)) tr"

definition SetValue_Vec3 :: "track \<Rightarrow> real \<Rightarrow> Vec3 \<Rightarrow> bool \<Rightarrow> bool \<Rightarrow> track" where
  "SetValue_Vec3 tr time v bDefault applyMultiplier =
     for_loop 0 (m_nDimensions tr)
       (\<lambda>i tr'. updSubTrack tr' i (\<lambda>s. sub_SetValue s time (Vec3_at v i) bDefault applyMultiplier)) tr"

definition SetValue_Vec4 :: "track \<Rightarrow> real \<Rightarrow> Vec4 \<Rightarrow> bool \<Rightarrow> bool \<Rightarrow> track" where
  "SetValue_Vec4 tr time v bDefault applyMultiplier =
     for_loop 0 (m_nDimensions tr)
       (\<lambda>i tr'. updSubTrack tr' i (\<lambda>s. sub_SetValue s time (Vec4_at v i) bDefault applyMultiplier)) tr"

text \<open>The angle written on axis \<open>i\<close> by the quaternion \<^verbatim>\<open>SetValue\<close>.\<close>

definition SetValue_Quat_degree :: "Vec3 \<Rightarrow> real \<Rightarrow> bool \<Rightarrow> int \<Rightarrow> subtrack \<Rightarrow> real" where
  "SetValue_Quat_degree angles time bDefault i s =
     (let degree = RAD2DEG (Vec3_at angles i)
      in if \<not> bDefault then PreferShortestRotPath degree (sub_GetValue s time False) else degree)"

definition SetValue_Quat :: "(Quat \<Rightarrow> Vec3) \<Rightarrow> track \<Rightarrow> real \<Rightarrow> Quat \<Rightarrow> bool \<Rightarrow> track" where
  "SetValue_Quat GetAnglesXYZ tr time v bDefault =
     (if m_nDimensions tr = 3 then
        (let angles = GetAnglesXYZ v
         in for_loop 0 3
              (\<lambda>i tr'. updSubTrack tr' i
                 (\<lambda>s. sub_SetValue s time (SetValue_Quat_degree angles time bDefault i s) bDefault False))
              tr)
      else tr)"

text \<open>
  \<^verbatim>\<open>OffsetKeyPosition\<close>: the inner loop runs over the local indices below the key count
  read once before it starts. \<^verbatim>\<open>value = value + offset[i]\<close> is a float sum.
\<close>

definition OffsetKeyPosition_sub :: "real \<Rightarrow> subtrack \<Rightarrow> subtrack" where
  "OffsetKeyPosition_sub off pSubTrack =
     for_loop 0 (sub_GetNumKeys pSubTrack)
       (\<lambda>k s. let time = sub_GetKeyTime s k;
                  v = sub_GetValue s time False
              in sub_SetValue s time (f32 (v + off)) False False)
       pSubTrack"

definition OffsetKeyPosition :: "track \<Rightarrow> Vec3 \<Rightarrow> track" where
  "OffsetKeyPosition tr offset =
     (if m_nDimensions tr = 3 then
        for_loop 0 3 (\<lambda>i tr'. updSubTrack tr' i (OffsetKeyPosition_sub (Vec3_at offset i))) tr
      else tr)"

subsection \<open>Parent rebase\<close>

text \<open>\<^verbatim>\<open>AZ::Vector3\<close>: sum and componentwise product.\<close>

definition Vec3_add :: "Vec3 \<Rightarrow> Vec3 \<Rightarrow> Vec3" where
  "Vec3_add a b = \<lparr>vx = vx a + vx b, vy = vy a + vy b, vz = vz a + vz b\<rparr>"

definition Vec3_mul :: "Vec3 \<Rightarrow> Vec3 \<Rightarrow> Vec3" where
  "Vec3_mul a b = \<lparr>vx = vx a * vx b, vy = vy a * vy b, vz = vz a * vz b\<rparr>"

text \<open>
  The operations of \<^verbatim>\<open>AZ::Transform\<close> and AzFramework that the rebase calls: the point
  transform \<^verbatim>\<open>tm * v\<close>, \<^verbatim>\<open>InvertFull\<close>, \<^verbatim>\<open>ConvertTransformToEulerDegrees\<close> and
  \<^verbatim>\<open>RetrieveScaleExact\<close>. They belong to the math library, not to this file: the rebase
  takes them as a parameter, over any type \<open>'tm\<close> of transforms.
\<close>

record 'tm TransformOps =
  tm_mul :: "'tm \<Rightarrow> Vec3 \<Rightarrow> Vec3"
  tm_InvertFull :: "'tm \<Rightarrow> 'tm"
  tm_EulerDegrees :: "'tm \<Rightarrow> Vec3"
  tm_ScaleExact :: "'tm \<Rightarrow> Vec3"

text \<open>The first loop nest: every key time of the three sub-tracks, once, in order of discovery.\<close>

definition collectTimes :: "track \<Rightarrow> real list" where
  "collectTimes tr =
     for_loop 0 3
       (\<lambda>i allTimes.
          for_loop 0 (sub_GetNumKeys (subTrack tr i))
            (\<lambda>k allTimes.
               let time = sub_GetKeyTime (subTrack tr i) k
               in if time \<in> set allTimes then allTimes else allTimes @ [time])
            allTimes)
       []"

text \<open>The \<^verbatim>\<open>switch\<close> on the parameter type; other types leave the vector as read.\<close>

definition rebaseVector :: "'tm TransformOps \<Rightarrow> AnimParamType \<Rightarrow> 'tm \<Rightarrow> 'tm \<Rightarrow> Vec3 \<Rightarrow> Vec3" where
  "rebaseVector ops ptype oldParentWorldTM newParentInverseWorldTM vector =
     (case ptype of
        Position \<Rightarrow>
          (let worldPosition = tm_mul ops oldParentWorldTM vector
           in tm_mul ops newParentInverseWorldTM worldPosition)
      | Rotation \<Rightarrow>
          (let worldRotation = Vec3_add (tm_EulerDegrees ops oldParentWorldTM) vector
           in Vec3_add (tm_EulerDegrees ops newParentInverseWorldTM) worldRotation)
      | Scale \<Rightarrow>
          (let worldScale = Vec3_mul (tm_ScaleExact ops oldParentWorldTM) vector
           in Vec3_mul (tm_ScaleExact ops newParentInverseWorldTM) worldScale)
      | _ \<Rightarrow> vector)"

text \<open>
  The body of the second loop for one collected time: read the three sub-track values
  into a vector (all three components are assigned before use), convert it, write the
  three components back.
\<close>

definition readVector :: "track \<Rightarrow> real \<Rightarrow> Vec3" where
  "readVector tr time =
     for_loop 0 3 (\<lambda>i vector. Vec3_set vector i (sub_GetValue (subTrack tr i) time False))
       \<lparr>vx = 0, vy = 0, vz = 0\<rparr>"

definition writeVector :: "track \<Rightarrow> real \<Rightarrow> Vec3 \<Rightarrow> track" where
  "writeVector tr time vector =
     for_loop 0 3
       (\<lambda>i tr'. updSubTrack tr' i (\<lambda>s. sub_SetValue s time (Vec3_at vector i) False False)) tr"

definition rebaseAt :: "'tm TransformOps \<Rightarrow> 'tm \<Rightarrow> 'tm \<Rightarrow> real \<Rightarrow> track \<Rightarrow> track" where
  "rebaseAt ops oldParentWorldTM newParentInverseWorldTM time tr =
     writeVector tr time
       (rebaseVector ops (m_nParamType tr) oldParentWorldTM newParentInverseWorldTM
          (readVector tr time))"

definition UpdateKeyDataAfterParentChanged ::
    "'tm TransformOps \<Rightarrow> track \<Rightarrow> 'tm \<Rightarrow> 'tm \<Rightarrow> track" where
  "UpdateKeyDataAfterParentChanged ops tr oldParentWorldTM newParentWorldTM =
     (let newParentInverseWorldTM = tm_InvertFull ops newParentWorldTM;
          allTimes = collectTimes tr
      in fold (rebaseAt ops oldParentWorldTM newParentInverseWorldTM) allTimes tr)"

subsection \<open>Example tracks\<close>

text \<open>No interpolation: a sub-track that reads 0 where it has no key.\<close>

definition mkSub :: "(real \<times> real) list \<Rightarrow> subtrack" where
  "mkSub tvs = \<lparr>keys = map (\<lambda>(t, v). \<lparr>key_time = t, key_value = v, key_selected = False\<rparr>) tvs,
               interpolate = (\<lambda>ks t. 0)\<rparr>"

text \<open>
  Two active sub-tracks: A with keys at times 0 and 2, B with keys at times 1 and 3.
  The flat indices are 0, 1 (A) and 2, 3 (B).
\<close>

definition trackAB :: track where
  "trackAB = \<lparr>m_nDimensions = 2, m_nParamType = OtherParam,
              m_subTracks = [mkSub [(0, 10), (2, 12)], mkSub [(1, 11), (3, 13)]]\<rparr>"

subsection \<open>The loop invariant of \<^verbatim>\<open>NextKeyByTime\<close>\<close>

text \<open>
  After the sub-tracks before \<open>i\<close> have been scanned, \<open>count\<close> is the number of their
  keys, and \<open>result\<close> is the lowest flat index among their keys of the smallest time
  later than \<open>T\<close>, with \<open>timeNext\<close> its time; when they have no key later than \<open>T\<close>,
  \<open>result\<close> and \<open>timeNext\<close> still hold their initial values.
\<close>

definition NextKey_inv :: "track \<Rightarrow> real \<Rightarrow> int \<Rightarrow> int \<times> int \<times> real \<Rightarrow> bool" where
  "NextKey_inv tr T i st =
     (case st of (count, result, timeNext) \<Rightarrow>
        count = keysBefore tr i \<and>
        (if \<exists>g. 0 \<le> g \<and> g < keysBefore tr i \<and> T < GetKeyTime tr g
         then 0 \<le> result \<and> result < keysBefore tr i \<and> GetKeyTime tr result = timeNext
              \<and> T < timeNext
              \<and> (\<forall>g. 0 \<le> g \<and> g < keysBefore tr i \<and> T < GetKeyTime tr g \<longrightarrow>
                     timeNext < GetKeyTime tr g \<or> (timeNext = GetKeyTime tr g \<and> result \<le> g))
         else result = - 1 \<and> timeNext = FLT_MAX))"

text \<open>One sub-track whose last key sits at \<^verbatim>\<open>FLT_MAX\<close>.\<close>

definition trackMax :: track where
  "trackMax = \<lparr>m_nDimensions = 1, m_nParamType = OtherParam,
              m_subTracks = [mkSub [(0, 10), (FLT_MAX, 12)]]\<rparr>"

text \<open>
  One sub-track with two keys closer together than \<open>timeEpsilon\<close>, at times 0 and
  \<open>2^-11 = 0.00048828125\<close>.
\<close>

definition trackNear :: track where
  "trackNear = \<lparr>m_nDimensions = 1, m_nParamType = OtherParam,
              m_subTracks = [mkSub [(0, 10), (1 / 2048, 12)]]\<rparr>"

text \<open>
  Two sub-tracks with one key each, at the binary32 times \<open>8589934 / 2^33\<close> and
  \<open>-9 / 2^37\<close>, which are a little less than 1/1000 apart.
\<close>

definition trackEdge :: track where
  "trackEdge = \<lparr>m_nDimensions = 2, m_nParamType = OtherParam,
              m_subTracks = [mkSub [(8589934 / 2 ^ 33, 10)], mkSub [(- (9 / 2 ^ 37), 11)]]\<rparr>"

text \<open>
  Three-dimensional tracks: one whose first sub-track has two keys at the same time,
  one with distinct key times on every sub-track.
\<close>

definition trackDup :: track where
  "trackDup = \<lparr>m_nDimensions = 3, m_nParamType = Position,
              m_subTracks = [mkSub [(0, 1), (0, 2)], mkSub [], mkSub []]\<rparr>"

definition trackXYZ :: track where
  "trackXYZ = \<lparr>m_nDimensions = 3, m_nParamType = Position,
              m_subTracks = [mkSub [(0, 1), (1, 2)], mkSub [(0, 3)], mkSub [(1, 4)]]\<rparr>"


definition trackScale :: track where
  "trackScale = \<lparr>m_nDimensions = 3, m_nParamType = Scale,
              m_subTracks = [mkSub [(0, 3)], mkSub [(0, 5)], mkSub [(0, 7)]]\<rparr>"

text \<open>What \<^verbatim>\<open>OffsetKeyPosition\<close> is meant to do to one key.\<close>

definition addValue :: "real \<Rightarrow> key \<Rightarrow> key" where
  "addValue off k = k\<lparr>key_value := f32 (key_value k + off)\<rparr>"

subsection \<open>Notions used to state and prove the rebase properties\<close>

text \<open>The value a sub-track stores at a time, if it has a key there.\<close>

definition stored :: "subtrack \<Rightarrow> real \<Rightarrow> real option" where
  "stored s time = map_option key_value (keyAt (keys s) time)"

text \<open>The body of the second loop with the conversion \<open>F\<close> of the vector made explicit.\<close>

definition rewriteAt :: "(Vec3 \<Rightarrow> Vec3) \<Rightarrow> real \<Rightarrow> track \<Rightarrow> track" where
  "rewriteAt F time tr = writeVector tr time (F (readVector tr time))"

text \<open>The key times of the three sub-tracks.\<close>

definition keyTimes :: "track \<Rightarrow> real set" where
  "keyTimes tr = (\<Union>i \<in> {0, 1, 2}. key_time ` set (keys (subTrack tr i)))"

text \<open>
  A transform is invertible when \<^verbatim>\<open>InvertFull\<close> yields its two-sided inverse on points.
  Its scale is reciprocal when the scale of the inverse is, component by component, the
  reciprocal of its own scale.
\<close>

definition tm_invertible :: "'tm TransformOps \<Rightarrow> 'tm \<Rightarrow> bool" where
  "tm_invertible ops tm =
     ((\<forall>v. tm_mul ops (tm_InvertFull ops tm) (tm_mul ops tm v) = v)
      \<and> (\<forall>v. tm_mul ops tm (tm_mul ops (tm_InvertFull ops tm) v) = v))"

definition tm_reciprocal_scale :: "'tm TransformOps \<Rightarrow> 'tm \<Rightarrow> bool" where
  "tm_reciprocal_scale ops tm =
     (Vec3_mul (tm_ScaleExact ops (tm_InvertFull ops tm)) (tm_ScaleExact ops tm)
        = \<lparr>vx = 1, vy = 1, vz = 1\<rparr>)"

subsection \<open>A transform library for the examples\<close>

text \<open>
  Modelled from the spec: the transform collaborator, of which the spec names the point
  transform, the inverse, the Euler-degrees decomposition and the exact scale extraction
  (\<^verbatim>\<open>AZ::Transform\<close> and AzFramework's math utilities lie outside the files modelled
  here). A transform is the affine map given by three basis vectors and a translation;
  its inverse is the inverse map; its scale is the length of each basis vector; its
  Euler angles are those of the XYZ order that the quaternion \<^verbatim>\<open>GetValue\<close> assumes, read
  from the basis with the scale removed. This instance serves the examples below; the
  theorems about the rebase hold for every instance of \<open>TransformOps\<close>.
\<close>

definition Vec3_sub :: "Vec3 \<Rightarrow> Vec3 \<Rightarrow> Vec3" where
  "Vec3_sub a b = \<lparr>vx = vx a - vx b, vy = vy a - vy b, vz = vz a - vz b\<rparr>"

definition Vec3_scale :: "real \<Rightarrow> Vec3 \<Rightarrow> Vec3" where
  "Vec3_scale c v = \<lparr>vx = c * vx v, vy = c * vy v, vz = c * vz v\<rparr>"

definition Vec3_dot :: "Vec3 \<Rightarrow> Vec3 \<Rightarrow> real" where
  "Vec3_dot a b = vx a * vx b + vy a * vy b + vz a * vz b"

definition Vec3_cross :: "Vec3 \<Rightarrow> Vec3 \<Rightarrow> Vec3" where
  "Vec3_cross a b = \<lparr>vx = vy a * vz b - vz a * vy b, vy = vz a * vx b - vx a * vz b,
                     vz = vx a * vy b - vy a * vx b\<rparr>"

definition Vec3_length :: "Vec3 \<Rightarrow> real" where
  "Vec3_length v = sqrt (Vec3_dot v v)"

record Transform =
  m_basisX :: Vec3
  m_basisY :: Vec3
  m_basisZ :: Vec3
  m_position :: Vec3

definition Transform_mul :: "Transform \<Rightarrow> Vec3 \<Rightarrow> Vec3" where
  "Transform_mul tm v =
     Vec3_add (Vec3_add (Vec3_add (Vec3_scale (vx v) (m_basisX tm)) (Vec3_scale (vy v) (m_basisY tm)))
                 (Vec3_scale (vz v) (m_basisZ tm)))
       (m_position tm)"

definition Transform_det :: "Transform \<Rightarrow> real" where
  "Transform_det tm = Vec3_dot (m_basisX tm) (Vec3_cross (m_basisY tm) (m_basisZ tm))"

definition Transform_InvertFull :: "Transform \<Rightarrow> Transform" where
  "Transform_InvertFull tm =
     (let d = Transform_det tm;
          r0 = Vec3_scale (1 / d) (Vec3_cross (m_basisY tm) (m_basisZ tm));
          r1 = Vec3_scale (1 / d) (Vec3_cross (m_basisZ tm) (m_basisX tm));
          r2 = Vec3_scale (1 / d) (Vec3_cross (m_basisX tm) (m_basisY tm));
          p = m_position tm
      in \<lparr>m_basisX = \<lparr>vx = vx r0, vy = vx r1, vz = vx r2\<rparr>,
          m_basisY = \<lparr>vx = vy r0, vy = vy r1, vz = vy r2\<rparr>,
          m_basisZ = \<lparr>vx = vz r0, vy = vz r1, vz = vz r2\<rparr>,
          m_position = \<lparr>vx = - Vec3_dot r0 p, vy = - Vec3_dot r1 p, vz = - Vec3_dot r2 p\<rparr>\<rparr>)"

definition Transform_ScaleExact :: "Transform \<Rightarrow> Vec3" where
  "Transform_ScaleExact tm =
     \<lparr>vx = Vec3_length (m_basisX tm), vy = Vec3_length (m_basisY tm), vz = Vec3_length (m_basisZ tm)\<rparr>"

definition atan2 :: "real \<Rightarrow> real \<Rightarrow> real" where
  "atan2 b a =
     (if 0 < a then arctan (b / a)
      else if a < 0 then (if 0 \<le> b then arctan (b / a) + pi else arctan (b / a) - pi)
      else if 0 < b then pi / 2 else if b < 0 then - pi / 2 else 0)"

definition Transform_EulerDegrees :: "Transform \<Rightarrow> Vec3" where
  "Transform_EulerDegrees tm =
     (let nx = Vec3_scale (1 / Vec3_length (m_basisX tm)) (m_basisX tm);
          ny = Vec3_scale (1 / Vec3_length (m_basisY tm)) (m_basisY tm);
          nz = Vec3_scale (1 / Vec3_length (m_basisZ tm)) (m_basisZ tm)
      in \<lparr>vx = RAD2DEG (atan2 (- vy nz) (vz nz)),
          vy = RAD2DEG (arcsin (vx nz)),
          vz = RAD2DEG (atan2 (- vx ny) (vx nx))\<rparr>)"

definition matrixOps :: "Transform TransformOps" where
  "matrixOps = \<lparr>tm_mul = Transform_mul, tm_InvertFull = Transform_InvertFull,
                tm_EulerDegrees = Transform_EulerDegrees, tm_ScaleExact = Transform_ScaleExact\<rparr>"

text \<open>
  The identity; a half turn about X after a quarter turn about Z, which is its own
  inverse; a quarter turn about Z of an X axis stretched by 2.
\<close>

definition vec3 :: "real \<Rightarrow> real \<Rightarrow> real \<Rightarrow> Vec3" where
  "vec3 a b c = \<lparr>vx = a, vy = b, vz = c\<rparr>"

definition identityTM :: Transform where
  "identityTM = \<lparr>m_basisX = vec3 1 0 0, m_basisY = vec3 0 1 0, m_basisZ = vec3 0 0 1,
                 m_position = vec3 0 0 0\<rparr>"

definition flipTM :: Transform where
  "flipTM = \<lparr>m_basisX = vec3 0 (- 1) 0, m_basisY = vec3 (- 1) 0 0, m_basisZ = vec3 0 0 (- 1),
             m_position = vec3 0 0 0\<rparr>"

definition turnStretchTM :: Transform where
  "turnStretchTM = \<lparr>m_basisX = vec3 0 2 0, m_basisY = vec3 (- 1) 0 0, m_basisZ = vec3 0 0 1,
             m_position = vec3 0 0 0\<rparr>"

section \<open>Properties\<close>

subsection \<open>Rounding to binary32\<close>

text \<open>Inside a binade the exponent is known, and with it the rounded value.\<close>

lemma f32_exponent_eq:
  assumes "2 powi e \<le> \<bar>x\<bar>" and "\<bar>x\<bar> < 2 powi (e + 1)" and "- 126 \<le> e"
  shows "f32_exponent x = e"
proof -
  have "(0::real) < 2 powi e" by simp
  with assms(1) have pos: "0 < \<bar>x\<bar>" by linarith
  have "2 powr (real_of_int e + 1) = 2 powi (e + 1)"
    using powr_real_of_int' [of 2 "e + 1"] by simp
  with assms pos have "\<lfloor>log 2 \<bar>x\<bar>\<rfloor> = e"
    by (simp add: floor_log_eq_powr_iff powr_real_of_int')
  with assms(3) show ?thesis by (simp add: f32_exponent_def)
qed

lemma f32_round_at:
  assumes "2 powi e \<le> \<bar>x\<bar>" and "\<bar>x\<bar> < 2 powi (e + 1)" and "- 126 \<le> e"
  shows "f32_round x = of_int (rne (x / 2 powi (e - 23))) * 2 powi (e - 23)"
proof -
  have "(0::real) < 2 powi e" by simp
  with assms(1) have "x \<noteq> 0" by linarith
  then show ?thesis by (simp add: f32_round_def f32_exponent_eq [OF assms] Let_def)
qed

lemma f32_eqI:
  assumes "2 powi e \<le> \<bar>x\<bar>" and "\<bar>x\<bar> < 2 powi (e + 1)" and "- 126 \<le> e"
    and "of_int (rne (x / 2 powi (e - 23))) * 2 powi (e - 23) = r" and "\<bar>r\<bar> \<le> FLT_MAX"
  shows "f32 x = r"
  using assms(4,5) by (simp add: f32_def f32_round_at [OF assms(1-3)])

lemma f32_0: "f32 0 = 0"
  by (simp add: f32_def f32_round_def FLT_MAX_def)

text \<open>
  The constants of the source are binary32 values: \<^verbatim>\<open>0.001f\<close> is 1/1000 rounded, and
  \<^verbatim>\<open>FLT_MAX\<close> has the largest significand at the largest exponent.
\<close>

lemma timeEpsilon_binary32: "f32 (1 / 1000) = timeEpsilon"
  by (rule f32_eqI [of "- 10"]; simp add: rne_def FLT_MAX_def timeEpsilon_def)

lemma FLT_MAX_binary32: "FLT_MAX = (2 ^ 24 - 1) * 2 ^ 104" "f32 FLT_MAX = FLT_MAX"
proof -
  show "FLT_MAX = (2 ^ 24 - 1) * 2 ^ 104" by (simp add: FLT_MAX_def)
  show "f32 FLT_MAX = FLT_MAX"
    unfolding FLT_MAX_def by (rule f32_eqI [of 127]; simp add: rne_def FLT_MAX_def)
qed

text \<open>A sum that is no binary32 value is rounded: the tie at \<open>2^24 + 1\<close> goes to \<open>2^24\<close>.\<close>

lemma f32_tie: "f32 (16777216 + 1) = 16777216"
  by (rule f32_eqI [of 24]; simp add: rne_def FLT_MAX_def)

text \<open>Some binary32 values: small whole numbers are rounded to themselves.\<close>

lemma f32_small:
  "f32 1 = 1" "f32 360 = 360" "f32 350 = 350" "f32 340 = 340" "f32 (- 20) = - 20"
  "f32 11 = 11" "f32 21 = 21" "f32 180 = 180" "f32 (- 180) = - 180" "f32 12 = 12"
           apply (rule f32_eqI [of 0]; simp add: rne_def FLT_MAX_def)
          apply (rule f32_eqI [of 8]; simp add: rne_def FLT_MAX_def)
         apply (rule f32_eqI [of 8]; simp add: rne_def FLT_MAX_def)
        apply (rule f32_eqI [of 8]; simp add: rne_def FLT_MAX_def)
       apply (rule f32_eqI [of 4]; simp add: rne_def FLT_MAX_def)
      apply (rule f32_eqI [of 3]; simp add: rne_def FLT_MAX_def)
     apply (rule f32_eqI [of 4]; simp add: rne_def FLT_MAX_def)
    apply (rule f32_eqI [of 7]; simp add: rne_def FLT_MAX_def)
   apply (rule f32_eqI [of 7]; simp add: rne_def FLT_MAX_def)
  apply (rule f32_eqI [of 3]; simp add: rne_def FLT_MAX_def)
  done

text \<open>Rounding to the nearest integer keeps the order and commutes with negation.\<close>

lemma rne_of_int: "rne (of_int n) = n"
  by (simp add: rne_def)

lemma rne_range: "\<lfloor>x\<rfloor> \<le> rne x" "rne x \<le> \<lfloor>x\<rfloor> + 1"
  by (simp_all add: rne_def Let_def)

lemma rne_mono:
  assumes "x \<le> y"
  shows "rne x \<le> rne y"
proof (cases "\<lfloor>x\<rfloor> < \<lfloor>y\<rfloor>")
  case True
  with rne_range(2) [of x] rne_range(1) [of y] show ?thesis by linarith
next
  case False
  with assms have eq: "\<lfloor>x\<rfloor> = \<lfloor>y\<rfloor>" using floor_mono [of x y] by linarith
  with assms show ?thesis
    by (simp add: rne_def Let_def)
qed

lemma rne_minus: "rne (- q) = - rne q"
proof (cases "q = of_int \<lfloor>q\<rfloor>")
  case True
  then obtain n :: int where "q = of_int n" ..
  then show ?thesis by (simp add: rne_of_int flip: of_int_minus)
next
  case False
  then have fl: "\<lfloor>- q\<rfloor> = - \<lfloor>q\<rfloor> - 1"
    by (intro floor_unique) (simp, linarith)+
  have d: "0 < q - of_int \<lfloor>q\<rfloor>" "q - of_int \<lfloor>q\<rfloor> < 1"
    using False by linarith+
  show ?thesis
    unfolding rne_def Let_def fl using d
    by (auto simp: field_simps)
qed

lemma f32_exponent_bounds:
  assumes "x \<noteq> 0"
  shows "\<bar>x\<bar> < 2 powi (f32_exponent x + 1)"
    and "- 126 < f32_exponent x \<Longrightarrow> 2 powi (f32_exponent x) \<le> \<bar>x\<bar>"
proof -
  let ?k = "\<lfloor>log 2 \<bar>x\<bar>\<rfloor>"
  have pos: "0 < \<bar>x\<bar>" using assms by simp
  have "2 powr (of_int ?k) \<le> \<bar>x\<bar> \<and> \<bar>x\<bar> < 2 powr (of_int ?k + 1)"
    using floor_log_eq_powr_iff [of "\<bar>x\<bar>" 2 ?k] pos by simp
  moreover have "2 powr (real_of_int ?k + 1) = 2 powi (?k + 1)"
    using powr_real_of_int' [of 2 "?k + 1"] by simp
  ultimately have k: "2 powi ?k \<le> \<bar>x\<bar>" "\<bar>x\<bar> < 2 powi (?k + 1)"
    by (simp_all add: powr_real_of_int')
  have "(2::real) powi (?k + 1) \<le> 2 powi (f32_exponent x + 1)"
    by (intro power_int_increasing) (simp_all add: f32_exponent_def)
  with k(2) show "\<bar>x\<bar> < 2 powi (f32_exponent x + 1)" by linarith
  show "2 powi (f32_exponent x) \<le> \<bar>x\<bar>" if "- 126 < f32_exponent x"
  proof -
    from that have "f32_exponent x = ?k" by (simp add: f32_exponent_def max_def split: if_splits)
    with k(1) show ?thesis by simp
  qed
qed

lemma f32_exponent_mono:
  assumes "x \<noteq> 0" and "\<bar>x\<bar> \<le> \<bar>y\<bar>"
  shows "f32_exponent x \<le> f32_exponent y"
proof -
  have "log 2 \<bar>x\<bar> \<le> log 2 \<bar>y\<bar>" using assms by simp
  then have "\<lfloor>log 2 \<bar>x\<bar>\<rfloor> \<le> \<lfloor>log 2 \<bar>y\<bar>\<rfloor>" by (rule floor_mono)
  then show ?thesis by (simp add: f32_exponent_def)
qed

text \<open>Rounding to the multiples of one spacing.\<close>

lemma grid_mono:
  assumes "x \<le> y"
  shows "of_int (rne (x / 2 powi k)) * (2::real) powi k \<le> of_int (rne (y / 2 powi k)) * 2 powi k"
proof -
  have "x / 2 powi k \<le> y / 2 powi k" using assms by (simp add: divide_right_mono)
  then have "rne (x / 2 powi k) \<le> rne (y / 2 powi k)" by (rule rne_mono)
  then show ?thesis by (simp add: mult_right_mono)
qed

lemma grid_fixed:
  assumes "k \<le> e"
  shows "of_int (rne (2 powi e / 2 powi k)) * (2::real) powi k = 2 powi e"
proof -
  have int: "(2::real) powi (e - k) = of_int (2 ^ nat (e - k))"
    using assms by (simp add: power_int_def)
  have "(2::real) powi e / 2 powi k = 2 powi (e - k)"
    by (simp add: power_int_diff)
  then have "rne (2 powi e / 2 powi k) = 2 ^ nat (e - k)"
    by (simp only: int rne_of_int)
  then have "of_int (rne (2 powi e / 2 powi k)) * (2::real) powi k = 2 powi (e - k) * 2 powi k"
    by (simp only: int)
  also have "\<dots> = 2 powi e"
    by (simp flip: power_int_add)
  finally show ?thesis .
qed

lemma f32_round_nonneg:
  assumes "0 \<le> x"
  shows "0 \<le> f32_round x"
proof -
  have "0 \<le> rne (x / 2 powi k)" for k
    using rne_mono [of 0 "x / 2 powi k"] assms by (simp add: rne_of_int [of 0, simplified])
  then show ?thesis by (simp add: f32_round_def Let_def)
qed

lemma f32_round_minus: "f32_round (- x) = - f32_round x"
  by (simp add: f32_round_def f32_exponent_def Let_def rne_minus)

lemma f32_round_mono_pos:
  assumes "0 < x" and "x \<le> y"
  shows "f32_round x \<le> f32_round y"
proof -
  let ?ex = "f32_exponent x" and ?ey = "f32_exponent y"
  have x0: "x \<noteq> 0" and y0: "y \<noteq> 0" using assms by simp_all
  have rx: "f32_round x = of_int (rne (x / 2 powi (?ex - 23))) * 2 powi (?ex - 23)"
    and ry: "f32_round y = of_int (rne (y / 2 powi (?ey - 23))) * 2 powi (?ey - 23)"
    using x0 y0 by (simp_all add: f32_round_def Let_def)
  have le: "?ex \<le> ?ey" using assms by (intro f32_exponent_mono) simp_all
  show ?thesis
  proof (cases "?ex = ?ey")
    case True
    then show ?thesis unfolding rx ry using grid_mono [OF assms(2)] by simp
  next
    case False
    have "- 126 \<le> ?ex" by (simp add: f32_exponent_def)
    with le False have lt: "?ex + 1 \<le> ?ey" and big: "- 126 < ?ey"
      by linarith+
    have "x \<le> 2 powi (?ex + 1)" using f32_exponent_bounds(1) [OF x0] assms by simp
    then have "f32_round x \<le> of_int (rne (2 powi (?ex + 1) / 2 powi (?ex - 23))) * 2 powi (?ex - 23)"
      unfolding rx by (rule grid_mono)
    also have "\<dots> = 2 powi (?ex + 1)" by (rule grid_fixed) simp
    also have "\<dots> \<le> 2 powi ?ey" using lt by (intro power_int_increasing) simp_all
    also have "\<dots> = of_int (rne (2 powi ?ey / 2 powi (?ey - 23))) * 2 powi (?ey - 23)"
      by (rule grid_fixed [symmetric]) simp
    also have "\<dots> \<le> f32_round y"
      unfolding ry using f32_exponent_bounds(2) [OF y0 big] assms by (intro grid_mono) simp
    finally show ?thesis .
  qed
qed

text \<open>Rounding to binary32 is monotone, also in absolute value.\<close>

lemma f32_round_abs: "\<bar>f32_round x\<bar> = f32_round \<bar>x\<bar>"
proof (cases "0 \<le> x")
  case True
  then show ?thesis using f32_round_nonneg [of x] by simp
next
  case False
  then have "0 \<le> f32_round (- x)" by (intro f32_round_nonneg) simp
  with False show ?thesis by (simp add: f32_round_minus)
qed

lemma f32_round_abs_mono:
  assumes "\<bar>x\<bar> \<le> \<bar>y\<bar>"
  shows "\<bar>f32_round x\<bar> \<le> \<bar>f32_round y\<bar>"
proof (cases "x = 0")
  case True
  then show ?thesis by (simp add: f32_round_def)
next
  case False
  then have "0 < \<bar>x\<bar>" by simp
  then have "f32_round \<bar>x\<bar> \<le> f32_round \<bar>y\<bar>" using assms by (rule f32_round_mono_pos)
  then show ?thesis by (simp add: f32_round_abs)
qed

lemma f32_round_power:
  assumes "- 126 \<le> e"
  shows "f32_round (2 powi e) = 2 powi e"
proof -
  have "f32_round (2 powi e) = of_int (rne (2 powi e / 2 powi (e - 23))) * 2 powi (e - 23)"
    using assms by (intro f32_round_at) (simp_all add: power_int_strict_increasing)
  also have "\<dots> = 2 powi e" by (rule grid_fixed) simp
  finally show ?thesis .
qed

lemma f32_round_bound:
  assumes "\<bar>x\<bar> \<le> 2 powi e" and "- 126 \<le> e"
  shows "\<bar>f32_round x\<bar> \<le> 2 powi e"
proof -
  have "\<bar>x\<bar> \<le> \<bar>(2::real) powi e\<bar>" using assms(1) by simp
  then have "\<bar>f32_round x\<bar> \<le> \<bar>f32_round (2 powi e)\<bar>" by (rule f32_round_abs_mono)
  then show ?thesis by (simp add: f32_round_power [OF assms(2)])
qed

lemma f32_eq_round:
  assumes "\<bar>x\<bar> \<le> 2 powi e" and "- 126 \<le> e" and "e \<le> 127"
  shows "f32 x = f32_round x"
proof -
  have "\<bar>f32_round x\<bar> \<le> 2 powi e" using assms(1,2) by (rule f32_round_bound)
  also have "(2::real) powi e \<le> 2 powi 127" using assms(3) by (intro power_int_increasing) simp_all
  also have "\<dots> \<le> FLT_MAX" by (simp add: FLT_MAX_def)
  finally show ?thesis by (simp add: f32_def)
qed

subsection \<open>Loops\<close>

lemma for_loop_done: "n \<le> i \<Longrightarrow> for_loop i n body s = s"
  by (simp add: for_loop.simps)

lemma for_loop_step: "i < n \<Longrightarrow> for_loop i n body s = for_loop (i + 1) n body (body i s)"
  by (subst for_loop.simps) simp

lemma for_loop_last:
  "i \<le> n \<Longrightarrow> for_loop i (n + 1) body s = body n (for_loop i n body s)"
proof (induction i n body s rule: for_loop.induct)
  case (1 i n body s)
  show ?case
  proof (cases "i < n")
    case True
    then show ?thesis
      using "1.IH" by (simp add: for_loop_step)
  next
    case False
    with "1.prems" have "i = n" by simp
    then show ?thesis
      by (simp add: for_loop_step for_loop_done)
  qed
qed

lemma keysBefore_0: "keysBefore tr 0 = 0"
  by (simp add: keysBefore_def)

lemma keysBefore_Suc:
  "0 \<le> i \<Longrightarrow> keysBefore tr (i + 1) = keysBefore tr i + sub_GetNumKeys (subTrack tr i)"
  by (simp add: keysBefore_def subTrack_def nat_add_distrib)

lemma keysBefore_mono: "0 \<le> i \<Longrightarrow> i \<le> j \<Longrightarrow> keysBefore tr i \<le> keysBefore tr j"
proof -
  assume "0 \<le> i" "i \<le> j"
  then have "{..< nat i} \<subseteq> {..< nat j}" by auto
  then show ?thesis
    unfolding keysBefore_def
    by (intro sum_mono2) (auto simp: sub_GetNumKeys_def)
qed

lemma GetNumKeys_loop_sum:
  "0 \<le> n \<Longrightarrow>
   for_loop 0 n (\<lambda>i nKeys. nKeys + sub_GetNumKeys (subTrack tr i)) 0 = keysBefore tr n"
proof (induction n rule: int_ge_induct)
  case base
  then show ?case by (simp add: for_loop_done keysBefore_0)
next
  case (step n)
  then show ?case
    by (simp add: for_loop_last keysBefore_Suc)
qed

lemma GetNumKeys_sum: "0 \<le> m_nDimensions tr \<Longrightarrow> GetNumKeys tr = keysBefore tr (m_nDimensions tr)"
  by (simp add: GetNumKeys_def GetNumKeys_loop_sum)

lemma GetSubTrackIndex_loop_found:
  "0 \<le> i \<Longrightarrow> count = keysBefore tr i \<Longrightarrow> count \<le> key
   \<Longrightarrow> key < keysBefore tr (m_nDimensions tr) \<Longrightarrow> i \<le> m_nDimensions tr
   \<Longrightarrow> (case GetSubTrackIndex_loop tr key i count of (r, l) \<Rightarrow>
          i \<le> r \<and> r < m_nDimensions tr \<and> 0 \<le> l \<and> l < sub_GetNumKeys (subTrack tr r)
          \<and> keysBefore tr r + l = key)"
proof (induction tr key i count rule: GetSubTrackIndex_loop.induct)
  case (1 tr key i count)
  show ?case
  proof (cases "i < m_nDimensions tr")
    case False
    with "1.prems" have "i = m_nDimensions tr" by simp
    with "1.prems" show ?thesis by simp
  next
    case dim: True
    show ?thesis
    proof (cases "key < count + sub_GetNumKeys (subTrack tr i)")
      case True
      with dim "1.prems" show ?thesis
        by (subst GetSubTrackIndex_loop.simps) simp
    next
      case False
      have eq: "GetSubTrackIndex_loop tr key i count =
                GetSubTrackIndex_loop tr key (i + 1) (count + sub_GetNumKeys (subTrack tr i))"
        using dim False by (subst GetSubTrackIndex_loop.simps) simp
      have "case GetSubTrackIndex_loop tr key (i + 1) (count + sub_GetNumKeys (subTrack tr i)) of
              (r, l) \<Rightarrow> i + 1 \<le> r \<and> r < m_nDimensions tr \<and> 0 \<le> l
                \<and> l < sub_GetNumKeys (subTrack tr r) \<and> keysBefore tr r + l = key"
        using dim False "1.prems" by (intro "1.IH") (simp_all add: keysBefore_Suc)
      then show ?thesis
        unfolding eq by (auto split: prod.splits)
    qed
  qed
qed

lemma for_loop_invariant:
  assumes "lo \<le> n" and "P lo s"
    and step: "\<And>i s. lo \<le> i \<Longrightarrow> i < n \<Longrightarrow> P i s \<Longrightarrow> P (i + 1) (body i s)"
  shows "P n (for_loop lo n body s)"
proof -
  have "lo \<le> i \<Longrightarrow> i \<le> n \<Longrightarrow> P i s \<Longrightarrow> P n (for_loop i n body s)" for i s
  proof (induction "nat (n - i)" arbitrary: i s)
    case 0
    then have "i = n" by simp
    with "0.prems" show ?case by (simp add: for_loop_done)
  next
    case (Suc d)
    then have lt: "i < n" by simp
    have "P (i + 1) (body i s)"
      using Suc.prems lt by (intro step) simp_all
    moreover have "d = nat (n - (i + 1))"
      using Suc.hyps(2) by simp
    ultimately have "P n (for_loop (i + 1) n body (body i s))"
      using Suc.prems lt by (intro Suc.hyps(1)) simp_all
    then show ?case
      using lt by (simp add: for_loop_step)
  qed
  then show ?thesis using assms(1,2) by simp
qed

lemma keysBefore_nonneg: "0 \<le> keysBefore tr i"
  by (simp add: keysBefore_def sub_GetNumKeys_def sum_nonneg)

lemma GetSubTrackIndex_valid:
  assumes "0 \<le> m_nDimensions tr" and "0 \<le> f" and "f < GetNumKeys tr"
  shows "case GetSubTrackIndex tr f of (r, l) \<Rightarrow>
          0 \<le> r \<and> r < m_nDimensions tr \<and> 0 \<le> l \<and> l < sub_GetNumKeys (subTrack tr r)
          \<and> keysBefore tr r + l = f"
  unfolding GetSubTrackIndex_def
  using assms
  by (intro GetSubTrackIndex_loop_found) (simp_all add: keysBefore_0 GetNumKeys_sum)

lemma flat_decomp_unique:
  assumes "0 \<le> r" "0 \<le> j" "0 \<le> l" "l < sub_GetNumKeys (subTrack tr j)"
    "0 \<le> l'" "l' < sub_GetNumKeys (subTrack tr r)"
    "keysBefore tr r + l' = keysBefore tr j + l"
  shows "r = j \<and> l' = l"
proof -
  have "r = j"
  proof (rule ccontr)
    assume "r \<noteq> j"
    then consider "r < j" | "j < r" by linarith
    then show False
    proof cases
      case 1
      then have "keysBefore tr (r + 1) \<le> keysBefore tr j"
        using assms(1) by (intro keysBefore_mono) simp_all
      then show False
        using assms keysBefore_Suc [of r tr] by simp
    next
      case 2
      then have "keysBefore tr (j + 1) \<le> keysBefore tr r"
        using assms(2) by (intro keysBefore_mono) simp_all
      then show False
        using assms keysBefore_Suc [of j tr] by simp
    qed
  qed
  with assms show ?thesis by simp
qed

lemma GetSubTrackIndex_flat:
  assumes "0 \<le> j" "j < m_nDimensions tr" "0 \<le> l" "l < sub_GetNumKeys (subTrack tr j)"
  shows "GetSubTrackIndex tr (keysBefore tr j + l) = (j, l)"
proof -
  let ?f = "keysBefore tr j + l"
  have dims: "0 \<le> m_nDimensions tr" using assms by simp
  have "keysBefore tr (j + 1) \<le> keysBefore tr (m_nDimensions tr)"
    using assms by (intro keysBefore_mono) simp_all
  then have hi: "?f < GetNumKeys tr"
    using assms dims by (simp add: GetNumKeys_sum keysBefore_Suc)
  have lo: "0 \<le> ?f"
    using assms keysBefore_nonneg [of tr j] by simp
  obtain r l' where rl: "GetSubTrackIndex tr ?f = (r, l')"
    by (cases "GetSubTrackIndex tr ?f")
  with GetSubTrackIndex_valid [OF dims lo hi]
  have v: "0 \<le> r" "r < m_nDimensions tr" "0 \<le> l'" "l' < sub_GetNumKeys (subTrack tr r)"
    "keysBefore tr r + l' = ?f"
    by simp_all
  have "r = j \<and> l' = l"
    using v assms by (intro flat_decomp_unique) simp_all
  with rl show ?thesis by simp
qed

lemma GetKeyTime_flat:
  assumes "0 \<le> j" "j < m_nDimensions tr" "0 \<le> l" "l < sub_GetNumKeys (subTrack tr j)"
  shows "GetKeyTime tr (keysBefore tr j + l) = sub_GetKeyTime (subTrack tr j) l"
  using assms by (simp add: GetKeyTime_def GetSubTrackIndex_flat)

lemma flat_split:
  assumes "0 \<le> i" "0 \<le> g" "g < keysBefore tr (i + 1)"
  shows "g < keysBefore tr i \<or> (\<exists>l. 0 \<le> l \<and> l < sub_GetNumKeys (subTrack tr i) \<and> g = keysBefore tr i + l)"
proof (cases "g < keysBefore tr i")
  case True then show ?thesis by simp
next
  case False
  then have "0 \<le> g - keysBefore tr i \<and> g - keysBefore tr i < sub_GetNumKeys (subTrack tr i)
     \<and> g = keysBefore tr i + (g - keysBefore tr i)"
    using assms by (simp add: keysBefore_Suc)
  then show ?thesis by blast
qed


subsection \<open>Flat-index round trip\<close>

text \<open>
  C4. For every compound track and every flat index \<open>f\<close> with \<open>0 \<le> f < GetNumKeys()\<close>,
  \<^verbatim>\<open>GetSubTrackIndex\<close> yields an active sub-track index \<open>i\<close> and a local index \<open>l\<close> with
  \<open>0 \<le> l <\<close> key count of sub-track \<open>i\<close>, and the key counts of the sub-tracks before
  \<open>i\<close>, summed, plus \<open>l\<close> give \<open>f\<close> back.
\<close>

theorem GetSubTrackIndex_roundtrip:
  assumes "track_ok tr" and "0 \<le> f" and "f < GetNumKeys tr"
  shows "\<exists>i l. GetSubTrackIndex tr f = (i, l)
           \<and> 0 \<le> i \<and> i < m_nDimensions tr
           \<and> 0 \<le> l \<and> l < sub_GetNumKeys (m_subTracks tr ! nat i)
           \<and> (\<Sum>j < nat i. sub_GetNumKeys (m_subTracks tr ! j)) + l = f"
proof -
  have dims: "0 \<le> m_nDimensions tr"
    using assms(1) by (simp add: track_ok_def)
  have "case GetSubTrackIndex_loop tr f 0 0 of (r, l) \<Rightarrow>
          0 \<le> r \<and> r < m_nDimensions tr \<and> 0 \<le> l \<and> l < sub_GetNumKeys (subTrack tr r)
          \<and> keysBefore tr r + l = f"
    using assms dims
    by (intro GetSubTrackIndex_loop_found) (simp_all add: keysBefore_0 GetNumKeys_sum)
  then show ?thesis
    by (auto simp: GetSubTrackIndex_def keysBefore_def subTrack_def split: prod.splits)
qed

theorem GetSubTrackIndex_roundtrip_witness:
  "track_ok trackAB \<and> (0::int) \<le> 2 \<and> 2 < GetNumKeys trackAB
   \<and> (\<exists>i l. GetSubTrackIndex trackAB 2 = (i, l)
           \<and> 0 \<le> i \<and> i < m_nDimensions trackAB
           \<and> 0 \<le> l \<and> l < sub_GetNumKeys (m_subTracks trackAB ! nat i)
           \<and> (\<Sum>j < nat i. sub_GetNumKeys (m_subTracks trackAB ! j)) + l = 2)"
proof -
  have ok: "track_ok trackAB"
    by (simp add: track_ok_def trackAB_def MAX_SUBTRACKS_def)
  have n: "GetNumKeys trackAB = 4"
    by (simp add: GetNumKeys_def for_loop.simps trackAB_def subTrack_def sub_GetNumKeys_def mkSub_def)
  have lo: "(0::int) \<le> 2" by simp
  have hi: "2 < GetNumKeys trackAB" by (simp add: n)
  show ?thesis
    using GetSubTrackIndex_roundtrip [OF ok lo hi] ok lo hi by blast
qed

subsection \<open>Failed index translation\<close>

lemma GetSubTrackIndex_loop_none:
  "0 \<le> i \<Longrightarrow> i \<le> m_nDimensions tr \<Longrightarrow> count = keysBefore tr i
   \<Longrightarrow> keysBefore tr (m_nDimensions tr) \<le> key
   \<Longrightarrow> GetSubTrackIndex_loop tr key i count = (- 1, key)"
proof (induction tr key i count rule: GetSubTrackIndex_loop.induct)
  case (1 tr key i count)
  show ?case
  proof (cases "i < m_nDimensions tr")
    case False
    then show ?thesis by (subst GetSubTrackIndex_loop.simps) simp
  next
    case True
    have "keysBefore tr (i + 1) \<le> keysBefore tr (m_nDimensions tr)"
      using True "1.prems" by (intro keysBefore_mono) simp_all
    then have no: "\<not> key < count + sub_GetNumKeys (subTrack tr i)"
      using "1.prems" by (simp add: keysBefore_Suc)
    have "GetSubTrackIndex_loop tr key (i + 1) (count + sub_GetNumKeys (subTrack tr i)) = (- 1, key)"
      using True no "1.prems" by (intro "1.IH") (simp_all add: keysBefore_Suc)
    then show ?thesis
      using True no by (subst GetSubTrackIndex_loop.simps) simp
  qed
qed

text \<open>Every flat index at or beyond the key count fails to translate.\<close>

lemma GetSubTrackIndex_out_of_range:
  "0 \<le> m_nDimensions tr \<Longrightarrow> GetNumKeys tr \<le> f \<Longrightarrow> GetSubTrackIndex tr f = (- 1, f)"
  unfolding GetSubTrackIndex_def
  by (intro GetSubTrackIndex_loop_none) (simp_all add: keysBefore_0 GetNumKeys_sum)

text \<open>
  C9. At every flat index for which \<^verbatim>\<open>GetSubTrackIndex\<close> reports \<open>-1\<close>, the operations
  \<^verbatim>\<open>RemoveKey\<close>, \<^verbatim>\<open>SetKeyTime\<close> and \<^verbatim>\<open>SelectKey\<close> return the track as it was (every
  sub-track unchanged), \<^verbatim>\<open>GetKeyTime\<close> returns 0 and \<^verbatim>\<open>IsKeySelected\<close> returns false: no
  sub-track is read or written through the failed translation.
\<close>

theorem failed_translation_touches_nothing:
  assumes "fst (GetSubTrackIndex tr f) = - 1"
  shows "RemoveKey tr f = tr \<and> SetKeyTime tr f t = tr \<and> SelectKey tr f sel = tr
         \<and> GetKeyTime tr f = 0 \<and> IsKeySelected tr f = False"
  using assms
  by (cases "GetSubTrackIndex tr f")
     (simp add: RemoveKey_def SetKeyTime_def SelectKey_def GetKeyTime_def IsKeySelected_def)

theorem failed_translation_touches_nothing_witness:
  "fst (GetSubTrackIndex trackAB 7) = - 1
   \<and> RemoveKey trackAB 7 = trackAB \<and> SetKeyTime trackAB 7 5 = trackAB
   \<and> SelectKey trackAB 7 True = trackAB
   \<and> GetKeyTime trackAB 7 = 0 \<and> IsKeySelected trackAB 7 = False"
proof -
  have h: "fst (GetSubTrackIndex trackAB 7) = - 1"
    by (simp add: GetSubTrackIndex_def GetSubTrackIndex_loop.simps trackAB_def subTrack_def
        sub_GetNumKeys_def mkSub_def)
  show ?thesis
    using failed_translation_touches_nothing [OF h, of 5 True] h by simp
qed


subsection \<open>The next key by time\<close>

lemmas eval_defs = GetNumKeys_def GetKeyTime_def GetSubTrackIndex_def GetSubTrackIndex_loop.simps
  NextKeyByTime_def NextKeyByTime_body_def NextKeyByTime_inner.simps GetSubTrackCount_def
  for_loop.simps subTrack_def sub_GetNumKeys_def sub_GetKeyTime_def mkSub_def

lemma NextKeyByTime_inner_none:
  "\<forall>k'. k \<le> k' \<and> k' < sub_GetNumKeys s \<longrightarrow> \<not> time < sub_GetKeyTime s k'
   \<Longrightarrow> NextKeyByTime_inner s time count k (r, tn) = (r, tn)"
proof (induction s time count k "(r, tn)" rule: NextKeyByTime_inner.induct)
  case (1 s time count k)
  show ?case
  proof (cases "k < sub_GetNumKeys s")
    case True
    with "1.prems" have nk: "\<not> time < sub_GetKeyTime s k" by simp
    have "NextKeyByTime_inner s time count (k + 1) (r, tn) = (r, tn)"
      using True nk "1.prems" by (intro "1.hyps") auto
    then show ?thesis
      using True nk by (subst NextKeyByTime_inner.simps) simp
  next
    case False
    then show ?thesis by (subst NextKeyByTime_inner.simps) simp
  qed
qed

lemma NextKeyByTime_inner_first:
  "k \<le> k0 \<Longrightarrow> k0 < sub_GetNumKeys s \<Longrightarrow> time < sub_GetKeyTime s k0
   \<Longrightarrow> \<forall>k'. k \<le> k' \<and> k' < k0 \<longrightarrow> \<not> time < sub_GetKeyTime s k'
   \<Longrightarrow> NextKeyByTime_inner s time count k (r, tn) =
       (if sub_GetKeyTime s k0 < tn then (count + k0, sub_GetKeyTime s k0) else (r, tn))"
proof (induction s time count k "(r, tn)" rule: NextKeyByTime_inner.induct)
  case (1 s time count k)
  have lt: "k < sub_GetNumKeys s" using "1.prems" by simp
  show ?case
  proof (cases "k = k0")
    case True
    then show ?thesis
      using lt "1.prems" by (subst NextKeyByTime_inner.simps) (simp add: Let_def)
  next
    case False
    then have lt0: "k < k0" using "1.prems" by simp
    with "1.prems" have nk: "\<not> time < sub_GetKeyTime s k" by simp
    have "NextKeyByTime_inner s time count (k + 1) (r, tn) =
       (if sub_GetKeyTime s k0 < tn then (count + k0, sub_GetKeyTime s k0) else (r, tn))"
      using lt nk lt0 "1.prems" by (intro "1.hyps") auto
    then show ?thesis
      using lt nk by (subst NextKeyByTime_inner.simps) simp
  qed
qed

lemma first_later_key:
  assumes "\<exists>l. 0 \<le> l \<and> l < sub_GetNumKeys s \<and> time < sub_GetKeyTime s l"
  obtains k0 where "0 \<le> k0" "k0 < sub_GetNumKeys s" "time < sub_GetKeyTime s k0"
    "\<forall>k'. 0 \<le> k' \<and> k' < k0 \<longrightarrow> \<not> time < sub_GetKeyTime s k'"
proof -
  let ?P = "\<lambda>n::nat. int n < sub_GetNumKeys s \<and> time < sub_GetKeyTime s (int n)"
  from assms obtain l where l: "0 \<le> l" "l < sub_GetNumKeys s" "time < sub_GetKeyTime s l"
    by blast
  then have "?P (nat l)" by simp
  then have least: "?P (LEAST n. ?P n)" by (rule LeastI)
  have "\<not> time < sub_GetKeyTime s k'" if "0 \<le> k'" "k' < int (LEAST n. ?P n)" for k'
  proof
    assume "time < sub_GetKeyTime s k'"
    with that least have "?P (nat k')" by simp
    then have "(LEAST n. ?P n) \<le> nat k'" by (rule Least_le)
    with that show False by simp
  qed
  then have "\<forall>k'. 0 \<le> k' \<and> k' < int (LEAST n. ?P n) \<longrightarrow> \<not> time < sub_GetKeyTime s k'"
    by blast
  moreover have "0 \<le> int (LEAST n. ?P n)" by simp
  moreover have "int (LEAST n. ?P n) < sub_GetNumKeys s" using least by blast
  moreover have "time < sub_GetKeyTime s (int (LEAST n. ?P n))" using least by blast
  ultimately show ?thesis
    by (rule that [of "int (LEAST n. ?P n)", rotated 3])
qed

lemma sorted_sub_times:
  assumes "sorted (map key_time (keys s))" "0 \<le> k" "k \<le> l" "l < sub_GetNumKeys s"
  shows "sub_GetKeyTime s k \<le> sub_GetKeyTime s l"
proof -
  have "map key_time (keys s) ! nat k \<le> map key_time (keys s) ! nat l"
    using assms by (intro sorted_nth_mono) (simp_all add: sub_GetNumKeys_def)
  then show ?thesis
    using assms by (simp add: sub_GetKeyTime_def sub_GetNumKeys_def)
qed


lemma NextKey_inv_step:
  assumes i: "0 \<le> i" "i < m_nDimensions tr"
    and sorted: "sorted (map key_time (keys (subTrack tr i)))"
    and fin: "\<forall>l. 0 \<le> l \<and> l < sub_GetNumKeys (subTrack tr i)
                \<longrightarrow> sub_GetKeyTime (subTrack tr i) l < FLT_MAX"
    and inv: "NextKey_inv tr T i st"
  shows "NextKey_inv tr T (i + 1) (NextKeyByTime_body tr T i st)"
proof -
  let ?s = "subTrack tr i"
  let ?c = "keysBefore tr i"
  let ?c' = "keysBefore tr (i + 1)"
  let ?ft = "GetKeyTime tr"
  obtain count result timeNext where st: "st = (count, result, timeNext)"
    by (cases st)
  have count: "count = ?c"
    using inv by (simp add: NextKey_inv_def st)
  have c': "?c' = ?c + sub_GetNumKeys ?s"
    using i by (simp add: keysBefore_Suc)
  have cle: "?c \<le> ?c'"
    by (simp add: c' sub_GetNumKeys_def)
  have ft: "?ft (?c + l) = sub_GetKeyTime ?s l" if "0 \<le> l" "l < sub_GetNumKeys ?s" for l
    using i that by (intro GetKeyTime_flat) simp_all
  have split: "g < ?c \<or> (\<exists>l. 0 \<le> l \<and> l < sub_GetNumKeys ?s \<and> g = ?c + l)"
    if "0 \<le> g" "g < ?c'" for g
    using i that by (intro flat_split) simp_all
  have body: "NextKeyByTime_body tr T i st =
      (?c', NextKeyByTime_inner ?s T ?c 0 (result, timeNext))"
    by (simp add: NextKeyByTime_body_def st count c')
  show ?thesis
  proof (cases "\<exists>l. 0 \<le> l \<and> l < sub_GetNumKeys ?s \<and> T < sub_GetKeyTime ?s l")
    case False
    then have inner: "NextKeyByTime_inner ?s T ?c 0 (result, timeNext) = (result, timeNext)"
      by (intro NextKeyByTime_inner_none) auto
    have same: "(0 \<le> g \<and> g < ?c' \<and> T < ?ft g) = (0 \<le> g \<and> g < ?c \<and> T < ?ft g)" for g
      using False split [of g] ft cle by fastforce
    have res: "NextKeyByTime_body tr T i st = (?c', result, timeNext)"
      by (simp add: body inner)
    have old: "NextKey_inv tr T i (?c, result, timeNext)"
      using inv by (simp add: st count)
    show ?thesis
    proof (cases "\<exists>g. 0 \<le> g \<and> g < ?c \<and> T < ?ft g")
      case True
      with old have "0 \<le> result \<and> result < ?c' \<and> ?ft result = timeNext \<and> T < timeNext
        \<and> (\<forall>g. 0 \<le> g \<and> g < ?c \<and> T < ?ft g \<longrightarrow>
               timeNext < ?ft g \<or> (timeNext = ?ft g \<and> result \<le> g))"
        unfolding NextKey_inv_def using cle by simp
      with True show ?thesis
        unfolding res NextKey_inv_def by (simp add: same)
    next
      case False
      with old have "result = - 1 \<and> timeNext = FLT_MAX"
        unfolding NextKey_inv_def by simp
      with False show ?thesis
        unfolding res NextKey_inv_def by (simp add: same)
    qed
  next
    case True
    then obtain k0 where k0: "0 \<le> k0" "k0 < sub_GetNumKeys ?s" "T < sub_GetKeyTime ?s k0"
      "\<forall>k'. 0 \<le> k' \<and> k' < k0 \<longrightarrow> \<not> T < sub_GetKeyTime ?s k'"
      by (rule first_later_key)
    let ?t0 = "sub_GetKeyTime ?s k0"
    have inner: "NextKeyByTime_inner ?s T ?c 0 (result, timeNext) =
        (if ?t0 < timeNext then (?c + k0, ?t0) else (result, timeNext))"
      using k0 by (intro NextKeyByTime_inner_first) simp_all
    have ex': "\<exists>g. 0 \<le> g \<and> g < ?c' \<and> T < ?ft g"
      using k0 ft [of k0] keysBefore_nonneg [of tr i] c'
      by (intro exI [of _ "?c + k0"]) simp
    have later: "?t0 \<le> sub_GetKeyTime ?s l"
      if "0 \<le> l" "l < sub_GetNumKeys ?s" "T < sub_GetKeyTime ?s l" for l
    proof -
      have "k0 \<le> l" using k0(4) that by force
      then show ?thesis using sorted k0 that by (intro sorted_sub_times) simp_all
    qed
    show ?thesis
    proof (cases "?t0 < timeNext")
      case new: True
      have old: "?t0 < ?ft g" if "0 \<le> g" "g < ?c" "T < ?ft g" for g
      proof -
        have "\<exists>g. 0 \<le> g \<and> g < ?c \<and> T < ?ft g" using that by blast
        with inv that have "timeNext \<le> ?ft g"
          by (auto simp: NextKey_inv_def st)
        with new show ?thesis by simp
      qed
      have all: "?t0 < ?ft g \<or> (?t0 = ?ft g \<and> ?c + k0 \<le> g)"
        if g: "0 \<le> g" "g < ?c'" "T < ?ft g" for g
      proof -
        from split [OF g(1,2)] show ?thesis
        proof
          assume "g < ?c"
          with old g show ?thesis by simp
        next
          assume "\<exists>l. 0 \<le> l \<and> l < sub_GetNumKeys ?s \<and> g = ?c + l"
          then obtain l where l: "0 \<le> l" "l < sub_GetNumKeys ?s" "g = ?c + l" by blast
          with g ft [of l] have Tl: "T < sub_GetKeyTime ?s l" by simp
          have "k0 \<le> l" using k0(4) l Tl by force
          moreover have "?t0 \<le> sub_GetKeyTime ?s l" using later l Tl by simp
          ultimately show ?thesis using l ft [of l] by auto
        qed
      qed
      have "0 \<le> ?c + k0 \<and> ?c + k0 < ?c' \<and> ?ft (?c + k0) = ?t0 \<and> T < ?t0"
        using k0 ft [of k0] keysBefore_nonneg [of tr i] c' by simp
      moreover have "NextKeyByTime_body tr T i st = (?c', ?c + k0, ?t0)"
        using new by (simp add: body inner)
      ultimately show ?thesis
        unfolding NextKey_inv_def using all ex' by simp
    next
      case keep: False
      have exold: "\<exists>g. 0 \<le> g \<and> g < ?c \<and> T < ?ft g"
      proof (rule ccontr)
        assume "\<not> ?thesis"
        with inv have "timeNext = FLT_MAX" by (auto simp: NextKey_inv_def st)
        with keep fin k0 show False by auto
      qed
      with inv have old: "0 \<le> result" "result < ?c" "?ft result = timeNext" "T < timeNext"
        "\<forall>g. 0 \<le> g \<and> g < ?c \<and> T < ?ft g \<longrightarrow>
            timeNext < ?ft g \<or> (timeNext = ?ft g \<and> result \<le> g)"
        unfolding NextKey_inv_def st by simp_all
      have all: "timeNext < ?ft g \<or> (timeNext = ?ft g \<and> result \<le> g)"
        if g: "0 \<le> g" "g < ?c'" "T < ?ft g" for g
      proof -
        from split [OF g(1,2)] show ?thesis
        proof
          assume "g < ?c"
          with old(5) g show ?thesis by simp
        next
          assume "\<exists>l. 0 \<le> l \<and> l < sub_GetNumKeys ?s \<and> g = ?c + l"
          then obtain l where l: "0 \<le> l" "l < sub_GetNumKeys ?s" "g = ?c + l" by blast
          with g ft [of l] have Tl: "T < sub_GetKeyTime ?s l" by simp
          have "?t0 \<le> sub_GetKeyTime ?s l" using later l Tl by simp
          with keep have "timeNext \<le> ?ft g" using l ft [of l] by simp
          moreover have "result \<le> g" using old(2) l by simp
          ultimately show ?thesis by auto
        qed
      qed
      have "result < ?c'" using old(2) cle by simp
      moreover have "NextKeyByTime_body tr T i st = (?c', result, timeNext)"
        using keep by (simp add: body inner)
      ultimately show ?thesis
        unfolding NextKey_inv_def using all ex' old(1,3,4) by simp
    qed
  qed
qed


lemma GetSubTrackIndex_mono:
  assumes "0 \<le> m_nDimensions tr" "0 \<le> g" "g \<le> g'" "g' < GetNumKeys tr"
  shows "fst (GetSubTrackIndex tr g) \<le> fst (GetSubTrackIndex tr g')"
proof -
  obtain r l where rl: "GetSubTrackIndex tr g = (r, l)" by (cases "GetSubTrackIndex tr g")
  obtain r' l' where rl': "GetSubTrackIndex tr g' = (r', l')" by (cases "GetSubTrackIndex tr g'")
  have v: "0 \<le> r" "0 \<le> l" "keysBefore tr r + l = g"
    using GetSubTrackIndex_valid [of tr g] assms rl by simp_all
  have v': "0 \<le> r'" "l' < sub_GetNumKeys (subTrack tr r')" "keysBefore tr r' + l' = g'"
    using GetSubTrackIndex_valid [of tr g'] assms rl' by simp_all
  have "r \<le> r'"
  proof (rule ccontr)
    assume "\<not> r \<le> r'"
    then have "keysBefore tr (r' + 1) \<le> keysBefore tr r"
      using v' by (intro keysBefore_mono) simp_all
    then show False
      using v v' assms keysBefore_Suc [of r' tr] by simp
  qed
  then show ?thesis by (simp add: rl rl')
qed

text \<open>
  C5 (as stated, refuted). The claim promises the next later key for every track with
  ascending key times. The scan starts from \<open>timeNext = FLT_MAX\<close> and accepts a key only
  when its time is below \<open>timeNext\<close>: with keys at times 0 and \<^verbatim>\<open>FLT_MAX\<close> on one sub-track,
  queried from the key at time 0, the later key exists and the result is \<open>-1\<close>.
\<close>

theorem NextKeyByTime_FLT_MAX_counterexample:
  "track_ok trackMax
   \<and> sorted (map key_time (keys (subTrack trackMax 0)))
   \<and> (0::int) \<le> 0 \<and> 0 < GetNumKeys trackMax \<and> (0::int) \<le> 1 \<and> 1 < GetNumKeys trackMax
   \<and> GetKeyTime trackMax 0 < GetKeyTime trackMax 1
   \<and> NextKeyByTime trackMax 0 = - 1"
  by (simp add: eval_defs trackMax_def track_ok_def MAX_SUBTRACKS_def FLT_MAX_def)

text \<open>
  C5 (amended). For every compound track whose sub-track keys are ordered by ascending
  time and all lie below \<^verbatim>\<open>FLT_MAX\<close>, and every valid flat index whose key has time \<open>T\<close>:
  when some key of an active sub-track is later than \<open>T\<close>, \<^verbatim>\<open>NextKeyByTime\<close> returns a valid
  flat index whose key has the smallest time later than \<open>T\<close>, and among the keys of that
  time the one of lowest flat index, hence of the lowest sub-track index; otherwise it
  returns \<open>-1\<close>.
\<close>

theorem NextKeyByTime_smallest_later:
  assumes ok: "track_ok tr"
    and sorted: "\<forall>i. 0 \<le> i \<and> i < m_nDimensions tr \<longrightarrow> sorted (map key_time (keys (subTrack tr i)))"
    and fin: "\<forall>g. 0 \<le> g \<and> g < GetNumKeys tr \<longrightarrow> GetKeyTime tr g < FLT_MAX"
    and f: "0 \<le> f" "f < GetNumKeys tr"
  shows "if \<exists>g. 0 \<le> g \<and> g < GetNumKeys tr \<and> GetKeyTime tr f < GetKeyTime tr g
         then 0 \<le> NextKeyByTime tr f \<and> NextKeyByTime tr f < GetNumKeys tr
              \<and> GetKeyTime tr f < GetKeyTime tr (NextKeyByTime tr f)
              \<and> (\<forall>g. 0 \<le> g \<and> g < GetNumKeys tr \<and> GetKeyTime tr f < GetKeyTime tr g \<longrightarrow>
                    GetKeyTime tr (NextKeyByTime tr f) < GetKeyTime tr g
                    \<or> (GetKeyTime tr (NextKeyByTime tr f) = GetKeyTime tr g
                        \<and> NextKeyByTime tr f \<le> g
                        \<and> fst (GetSubTrackIndex tr (NextKeyByTime tr f)) \<le> fst (GetSubTrackIndex tr g)))
         else NextKeyByTime tr f = - 1"
proof -
  let ?T = "GetKeyTime tr f"
  let ?n = "m_nDimensions tr"
  let ?st = "for_loop 0 ?n (NextKeyByTime_body tr ?T) (0, - 1, FLT_MAX)"
  have dims: "0 \<le> ?n" using ok by (simp add: track_ok_def)
  have N: "GetNumKeys tr = keysBefore tr ?n" using dims by (rule GetNumKeys_sum)
  have init: "NextKey_inv tr ?T 0 (0, - 1, FLT_MAX)"
    by (simp add: NextKey_inv_def keysBefore_0)
  have step: "NextKey_inv tr ?T (i + 1) (NextKeyByTime_body tr ?T i st)"
    if "0 \<le> i" "i < ?n" "NextKey_inv tr ?T i st" for i st
  proof (rule NextKey_inv_step [OF that(1,2) _ _ that(3)])
    show "sorted (map key_time (keys (subTrack tr i)))"
      using sorted that by simp
    show "\<forall>l. 0 \<le> l \<and> l < sub_GetNumKeys (subTrack tr i)
            \<longrightarrow> sub_GetKeyTime (subTrack tr i) l < FLT_MAX"
    proof (intro allI impI)
      fix l assume l: "0 \<le> l \<and> l < sub_GetNumKeys (subTrack tr i)"
      have "keysBefore tr (i + 1) \<le> keysBefore tr ?n"
        using that by (intro keysBefore_mono) simp_all
      then have "keysBefore tr i + l < GetNumKeys tr"
        using l that by (simp add: N keysBefore_Suc)
      moreover have "0 \<le> keysBefore tr i + l"
        using l keysBefore_nonneg [of tr i] by simp
      ultimately have "GetKeyTime tr (keysBefore tr i + l) < FLT_MAX"
        using fin by blast
      then show "sub_GetKeyTime (subTrack tr i) l < FLT_MAX"
        using l that by (simp add: GetKeyTime_flat)
    qed
  qed
  have final: "NextKey_inv tr ?T ?n ?st"
    using dims init step by (rule for_loop_invariant)
  obtain count result timeNext where st: "?st = (count, result, timeNext)"
    by (cases ?st)
  have res: "NextKeyByTime tr f = result"
    by (simp add: NextKeyByTime_def GetSubTrackCount_def st)
  show ?thesis
  proof (cases "\<exists>g. 0 \<le> g \<and> g < GetNumKeys tr \<and> ?T < GetKeyTime tr g")
    case False
    with final have "result = - 1"
      unfolding NextKey_inv_def st N by (auto split: if_splits)
    with False show ?thesis
      unfolding res by simp
  next
    case True
    with final have r: "0 \<le> result" "result < GetNumKeys tr" "?T < GetKeyTime tr result"
      and least: "\<forall>g. 0 \<le> g \<and> g < GetNumKeys tr \<and> ?T < GetKeyTime tr g \<longrightarrow>
            GetKeyTime tr result < GetKeyTime tr g
            \<or> (GetKeyTime tr result = GetKeyTime tr g \<and> result \<le> g)"
      unfolding NextKey_inv_def st N by (auto split: if_splits)
    have "GetKeyTime tr result < GetKeyTime tr g
            \<or> (GetKeyTime tr result = GetKeyTime tr g \<and> result \<le> g
                \<and> fst (GetSubTrackIndex tr result) \<le> fst (GetSubTrackIndex tr g))"
      if g: "0 \<le> g \<and> g < GetNumKeys tr \<and> ?T < GetKeyTime tr g" for g
    proof -
      from least g have "GetKeyTime tr result < GetKeyTime tr g
            \<or> (GetKeyTime tr result = GetKeyTime tr g \<and> result \<le> g)" by blast
      moreover have "fst (GetSubTrackIndex tr result) \<le> fst (GetSubTrackIndex tr g)"
        if "result \<le> g"
        using dims r(1) that g by (intro GetSubTrackIndex_mono) simp_all
      ultimately show ?thesis by blast
    qed
    with True r show ?thesis
      unfolding res by simp
  qed
qed

theorem NextKeyByTime_smallest_later_witness:
  "track_ok trackAB \<and> (0::int) \<le> 0 \<and> 0 < GetNumKeys trackAB
   \<and> GetKeyTime trackAB 0 = 0 \<and> NextKeyByTime trackAB 0 = 2
   \<and> GetKeyTime trackAB 2 = 1 \<and> fst (GetSubTrackIndex trackAB 2) = 1
   \<and> GetKeyTime trackAB 1 = 2
   \<and> GetKeyTime trackAB 0 < GetKeyTime trackAB (NextKeyByTime trackAB 0)
   \<and> NextKeyByTime trackAB 0 < GetNumKeys trackAB"
proof -
  have ok: "track_ok trackAB"
    by (simp add: track_ok_def trackAB_def MAX_SUBTRACKS_def)
  have n: "GetNumKeys trackAB = 4"
    by (simp add: eval_defs trackAB_def)
  have sorted: "\<forall>i. 0 \<le> i \<and> i < m_nDimensions trackAB
                  \<longrightarrow> sorted (map key_time (keys (subTrack trackAB i)))"
  proof (intro allI impI)
    fix i :: int
    assume "0 \<le> i \<and> i < m_nDimensions trackAB"
    then have "i = 0 \<or> i = 1" by (simp add: trackAB_def) arith
    then show "sorted (map key_time (keys (subTrack trackAB i)))"
      by (auto simp: trackAB_def subTrack_def mkSub_def)
  qed
  have fin: "\<forall>g. 0 \<le> g \<and> g < GetNumKeys trackAB \<longrightarrow> GetKeyTime trackAB g < FLT_MAX"
  proof (intro allI impI)
    fix g :: int
    assume "0 \<le> g \<and> g < GetNumKeys trackAB"
    then have "g = 0 \<or> g = 1 \<or> g = 2 \<or> g = 3" unfolding n by arith
    then show "GetKeyTime trackAB g < FLT_MAX"
      by (auto simp: eval_defs trackAB_def FLT_MAX_def)
  qed
  have lo: "(0::int) \<le> 0" by simp
  have hi: "0 < GetNumKeys trackAB" by (simp add: n)
  have vals: "GetKeyTime trackAB 0 = 0 \<and> NextKeyByTime trackAB 0 = 2
      \<and> GetKeyTime trackAB 2 = 1 \<and> fst (GetSubTrackIndex trackAB 2) = 1
      \<and> GetKeyTime trackAB 1 = 2"
    by (simp add: eval_defs trackAB_def FLT_MAX_def)
  have ex: "\<exists>g. 0 \<le> g \<and> g < GetNumKeys trackAB \<and> GetKeyTime trackAB 0 < GetKeyTime trackAB g"
    using vals n by (intro exI [of _ 2]) simp
  have "GetKeyTime trackAB 0 < GetKeyTime trackAB (NextKeyByTime trackAB 0)
        \<and> NextKeyByTime trackAB 0 < GetNumKeys trackAB"
    using NextKeyByTime_smallest_later [OF ok sorted fin lo hi] ex
    by (simp only: if_True simp_thms)
  with ok lo hi vals show ?thesis by simp
qed


subsection \<open>Selecting keys of the same time\<close>

lemma updSubTrack_simps:
  "m_nDimensions (updSubTrack tr i f) = m_nDimensions tr"
  "m_nParamType (updSubTrack tr i f) = m_nParamType tr"
  "length (m_subTracks (updSubTrack tr i f)) = length (m_subTracks tr)"
  by (simp_all add: updSubTrack_def)

lemma updSubTrack_nth:
  "0 \<le> i \<Longrightarrow> j < length (m_subTracks tr) \<Longrightarrow>
   m_subTracks (updSubTrack tr i f) ! j = (if j = nat i then f (m_subTracks tr ! j) else m_subTracks tr ! j)"
  by (simp add: updSubTrack_def subTrack_def nth_list_update)

text \<open>A loop that applies \<open>F k\<close> to sub-track \<open>k\<close> for every \<open>k < n\<close>.\<close>

lemma for_loop_updSubTrack:
  fixes F :: "int \<Rightarrow> subtrack \<Rightarrow> subtrack" and tr :: track
  assumes "0 \<le> n" and tr': "tr' = for_loop 0 n (\<lambda>k t. updSubTrack t k (F k)) tr"
  shows "m_nDimensions tr' = m_nDimensions tr \<and> m_nParamType tr' = m_nParamType tr
     \<and> length (m_subTracks tr') = length (m_subTracks tr)
     \<and> (\<forall>j < length (m_subTracks tr).
           m_subTracks tr' ! j = (if int j < n then F (int j) (m_subTracks tr ! j) else m_subTracks tr ! j))"
proof -
  let ?P = "\<lambda>i (t::track). m_nDimensions t = m_nDimensions tr \<and> m_nParamType t = m_nParamType tr
     \<and> length (m_subTracks t) = length (m_subTracks tr)
     \<and> (\<forall>j < length (m_subTracks tr).
           m_subTracks t ! j = (if int j < i then F (int j) (m_subTracks tr ! j) else m_subTracks tr ! j))"
  have "?P n (for_loop 0 n (\<lambda>k t. updSubTrack t k (F k)) tr)"
  proof (rule for_loop_invariant [where P = ?P])
    show "0 \<le> n" by fact
    show "?P 0 tr" by simp
  next
    fix i t
    assume i: "0 \<le> i" "i < n" and P: "?P i t"
    have "m_subTracks (updSubTrack t i (F i)) ! j =
        (if int j < i + 1 then F (int j) (m_subTracks tr ! j) else m_subTracks tr ! j)"
      if "j < length (m_subTracks tr)" for j
    proof -
      have "m_subTracks (updSubTrack t i (F i)) ! j =
          (if j = nat i then F i (m_subTracks t ! j) else m_subTracks t ! j)"
        using i that P by (intro updSubTrack_nth) simp_all
      moreover have "m_subTracks t ! j =
          (if int j < i then F (int j) (m_subTracks tr ! j) else m_subTracks tr ! j)"
        using P that by simp
      ultimately show ?thesis using i by auto
    qed
    then show "?P (i + 1) (updSubTrack t i (F i))"
      using P by (simp add: updSubTrack_simps)
  qed
  then show ?thesis by (simp add: tr')
qed


lemma sub_SelectKey_keys:
  "0 \<le> k \<Longrightarrow> k < sub_GetNumKeys s \<Longrightarrow> 0 \<le> m \<Longrightarrow> m < sub_GetNumKeys s \<Longrightarrow>
   keys (sub_SelectKey s k sel) ! nat m =
     (if m = k then (keys s ! nat m)\<lparr>key_selected := sel\<rparr> else keys s ! nat m)"
  by (auto simp: sub_SelectKey_def sub_GetNumKeys_def nth_list_update)

lemma sub_SelectKey_frame:
  "interpolate (sub_SelectKey s k sel) = interpolate s"
  "sub_GetNumKeys (sub_SelectKey s k sel) = sub_GetNumKeys s"
  by (simp_all add: sub_SelectKey_def sub_GetNumKeys_def)

lemma SelectKey_inner_spec:
  "0 \<le> k \<Longrightarrow>
   interpolate (SelectKey_inner s T sel k) = interpolate s
   \<and> sub_GetNumKeys (SelectKey_inner s T sel k) = sub_GetNumKeys s
   \<and> (\<forall>m. 0 \<le> m \<and> m < sub_GetNumKeys s \<longrightarrow>
         keys (SelectKey_inner s T sel k) ! nat m =
           (if k \<le> m \<and> \<bar>f32_round (sub_GetKeyTime s m - T)\<bar> < timeEpsilon
               \<and> (\<forall>m'. k \<le> m' \<and> m' < m \<longrightarrow>
                      \<not> \<bar>f32_round (sub_GetKeyTime s m' - T)\<bar> < timeEpsilon)
            then (keys s ! nat m)\<lparr>key_selected := sel\<rparr> else keys s ! nat m))"
proof (induction s T sel k rule: SelectKey_inner.induct)
  case (1 s T sel k)
  let ?W = "\<lambda>m. \<bar>f32_round (sub_GetKeyTime s m - T)\<bar> < timeEpsilon"
  show ?case
  proof (cases "k < sub_GetNumKeys s")
    case False
    then have "SelectKey_inner s T sel k = s"
      by (subst SelectKey_inner.simps) simp
    with False show ?thesis by auto
  next
    case lt: True
    show ?thesis
    proof (cases "?W k")
      case True
      then have eq: "SelectKey_inner s T sel k = sub_SelectKey s k sel"
        using lt by (subst SelectKey_inner.simps) simp
      have "(k \<le> m \<and> ?W m \<and> (\<forall>m'. k \<le> m' \<and> m' < m \<longrightarrow> \<not> ?W m')) = (m = k)" for m
        using True by (cases "m = k") force+
      then show ?thesis
        unfolding eq using "1.prems" lt
        by (simp add: sub_SelectKey_frame sub_SelectKey_keys)
    next
      case False
      then have eq: "SelectKey_inner s T sel k = SelectKey_inner s T sel (k + 1)"
        using lt by (subst SelectKey_inner.simps) simp
      have same: "(k + 1 \<le> m \<and> ?W m \<and> (\<forall>m'. k + 1 \<le> m' \<and> m' < m \<longrightarrow> \<not> ?W m'))
          = (k \<le> m \<and> ?W m \<and> (\<forall>m'. k \<le> m' \<and> m' < m \<longrightarrow> \<not> ?W m'))" for m
      proof (cases "m = k")
        case True
        with False show ?thesis by simp
      next
        case neq: False
        have "(\<forall>m'. k + 1 \<le> m' \<and> m' < m \<longrightarrow> \<not> ?W m') = (\<forall>m'. k \<le> m' \<and> m' < m \<longrightarrow> \<not> ?W m')"
        proof
          assume a: "\<forall>m'. k + 1 \<le> m' \<and> m' < m \<longrightarrow> \<not> ?W m'"
          show "\<forall>m'. k \<le> m' \<and> m' < m \<longrightarrow> \<not> ?W m'"
          proof (intro allI impI)
            fix m' assume "k \<le> m' \<and> m' < m"
            then show "\<not> ?W m'" using a False by (cases "m' = k") simp_all
          qed
        next
          assume "\<forall>m'. k \<le> m' \<and> m' < m \<longrightarrow> \<not> ?W m'"
          then show "\<forall>m'. k + 1 \<le> m' \<and> m' < m \<longrightarrow> \<not> ?W m'" by simp
        qed
        moreover have "(k + 1 \<le> m) = (k \<le> m)" using neq by linarith
        ultimately show ?thesis by simp
      qed
      have "interpolate (SelectKey_inner s T sel (k + 1)) = interpolate s
   \<and> sub_GetNumKeys (SelectKey_inner s T sel (k + 1)) = sub_GetNumKeys s
   \<and> (\<forall>m. 0 \<le> m \<and> m < sub_GetNumKeys s \<longrightarrow>
         keys (SelectKey_inner s T sel (k + 1)) ! nat m =
           (if k + 1 \<le> m \<and> ?W m \<and> (\<forall>m'. k + 1 \<le> m' \<and> m' < m \<longrightarrow> \<not> ?W m')
            then (keys s ! nat m)\<lparr>key_selected := sel\<rparr> else keys s ! nat m))"
        using lt False "1.prems" by (intro "1.IH") simp_all
      then show ?thesis
        unfolding eq same .
    qed
  qed
qed


lemma SelectKey_as_loop:
  assumes dims: "0 \<le> m_nDimensions tr" and f: "0 \<le> f" "f < GetNumKeys tr"
  shows "SelectKey tr f select =
     for_loop 0 (m_nDimensions tr)
       (\<lambda>k t. updSubTrack t k (\<lambda>s. SelectKey_inner s (GetKeyTime tr f) select 0)) tr"
proof -
  obtain i l where il: "GetSubTrackIndex tr f = (i, l)" by (cases "GetSubTrackIndex tr f")
  with GetSubTrackIndex_valid [OF dims f] have "0 \<le> i" by simp
  then show ?thesis
    by (simp add: SelectKey_def GetKeyTime_def il)
qed

lemmas select_defs = SelectKey_def SelectKey_inner.simps IsKeySelected_def sub_SelectKey_def
  sub_IsKeySelected_def updSubTrack_def timeEpsilon_def

text \<open>
  What \<^verbatim>\<open>SelectKey\<close> does on every track. With \<open>T\<close> the time of the addressed key, a
  key is within epsilon of \<open>T\<close> when the rounded difference of its time and \<open>T\<close> is below
  \<open>timeEpsilon\<close> in absolute value. In every active sub-track the flag goes to the first
  key (lowest local index) within epsilon of \<open>T\<close>, if there is one, and nothing else
  changes: every other key, the times and values of all keys, the key counts and the
  inactive slots are as before.
\<close>

lemma SelectKey_first_within_epsilon:
  assumes ok: "track_ok tr" and f: "0 \<le> f" "f < GetNumKeys tr"
  shows "m_nDimensions (SelectKey tr f select) = m_nDimensions tr
     \<and> length (m_subTracks (SelectKey tr f select)) = length (m_subTracks tr)
     \<and> (\<forall>i. 0 \<le> i \<and> i < m_nDimensions tr \<longrightarrow>
          interpolate (subTrack (SelectKey tr f select) i) = interpolate (subTrack tr i)
          \<and> sub_GetNumKeys (subTrack (SelectKey tr f select) i) = sub_GetNumKeys (subTrack tr i)
          \<and> (\<forall>m. 0 \<le> m \<and> m < sub_GetNumKeys (subTrack tr i) \<longrightarrow>
                keys (subTrack (SelectKey tr f select) i) ! nat m =
                  (if \<bar>f32_round (sub_GetKeyTime (subTrack tr i) m - GetKeyTime tr f)\<bar> < timeEpsilon
                      \<and> (\<forall>m'. 0 \<le> m' \<and> m' < m \<longrightarrow>
                            \<not> \<bar>f32_round (sub_GetKeyTime (subTrack tr i) m' - GetKeyTime tr f)\<bar>
                                < timeEpsilon)
                   then (keys (subTrack tr i) ! nat m)\<lparr>key_selected := select\<rparr>
                   else keys (subTrack tr i) ! nat m)))
     \<and> (\<forall>j. nat (m_nDimensions tr) \<le> j \<and> j < length (m_subTracks tr) \<longrightarrow>
           m_subTracks (SelectKey tr f select) ! j = m_subTracks tr ! j)"
proof -
  let ?n = "m_nDimensions tr"
  let ?T = "GetKeyTime tr f"
  let ?F = "\<lambda>(k::int) s. SelectKey_inner s ?T select 0"
  let ?tr' = "SelectKey tr f select"
  have dims: "0 \<le> ?n" and len: "?n \<le> int (length (m_subTracks tr))"
    using ok by (simp_all add: track_ok_def)
  have loop: "?tr' = for_loop 0 ?n (\<lambda>k t. updSubTrack t k (?F k)) tr"
    using dims f by (rule SelectKey_as_loop)
  note L = for_loop_updSubTrack [OF dims loop]
  have sub: "subTrack ?tr' i = SelectKey_inner (subTrack tr i) ?T select 0"
    if "0 \<le> i" "i < ?n" for i
  proof -
    have "nat i < length (m_subTracks tr)" using that len by simp
    with L have "m_subTracks ?tr' ! nat i =
       (if int (nat i) < ?n then SelectKey_inner (m_subTracks tr ! nat i) ?T select 0
        else m_subTracks tr ! nat i)"
      by blast
    then show ?thesis using that by (simp add: subTrack_def)
  qed
  have active: "interpolate (subTrack ?tr' i) = interpolate (subTrack tr i)
          \<and> sub_GetNumKeys (subTrack ?tr' i) = sub_GetNumKeys (subTrack tr i)
          \<and> (\<forall>m. 0 \<le> m \<and> m < sub_GetNumKeys (subTrack tr i) \<longrightarrow>
                keys (subTrack ?tr' i) ! nat m =
                  (if \<bar>f32_round (sub_GetKeyTime (subTrack tr i) m - ?T)\<bar> < timeEpsilon
                      \<and> (\<forall>m'. 0 \<le> m' \<and> m' < m \<longrightarrow>
                            \<not> \<bar>f32_round (sub_GetKeyTime (subTrack tr i) m' - ?T)\<bar> < timeEpsilon)
                   then (keys (subTrack tr i) ! nat m)\<lparr>key_selected := select\<rparr>
                   else keys (subTrack tr i) ! nat m))"
    if "0 \<le> i \<and> i < ?n" for i
    using SelectKey_inner_spec [of 0 "subTrack tr i" ?T select] sub [of i] that
    by simp
  have inactive: "m_subTracks ?tr' ! j = m_subTracks tr ! j"
    if "nat ?n \<le> j \<and> j < length (m_subTracks tr)" for j
  proof -
    from that L have "m_subTracks ?tr' ! j =
       (if int j < ?n then SelectKey_inner (m_subTracks tr ! j) ?T select 0
        else m_subTracks tr ! j)"
      by blast
    moreover have "\<not> int j < ?n" using that by linarith
    ultimately show ?thesis by simp
  qed
  from L active inactive show ?thesis by blast
qed

text \<open>
  Hence, in an active sub-track that holds at most one key within epsilon of \<open>T\<close>, the
  flag goes to exactly the keys within epsilon of \<open>T\<close>.
\<close>

lemma SelectKey_one_within_epsilon:
  assumes ok: "track_ok tr" and f: "0 \<le> f" "f < GetNumKeys tr"
    and i: "0 \<le> i" "i < m_nDimensions tr"
    and one: "\<forall>m m'. 0 \<le> m \<and> m < sub_GetNumKeys (subTrack tr i)
                \<and> 0 \<le> m' \<and> m' < sub_GetNumKeys (subTrack tr i)
                \<and> \<bar>f32_round (sub_GetKeyTime (subTrack tr i) m - GetKeyTime tr f)\<bar> < timeEpsilon
                \<and> \<bar>f32_round (sub_GetKeyTime (subTrack tr i) m' - GetKeyTime tr f)\<bar> < timeEpsilon
                \<longrightarrow> m = m'"
    and m: "0 \<le> m" "m < sub_GetNumKeys (subTrack tr i)"
  shows "keys (subTrack (SelectKey tr f select) i) ! nat m =
           (if \<bar>f32_round (sub_GetKeyTime (subTrack tr i) m - GetKeyTime tr f)\<bar> < timeEpsilon
            then (keys (subTrack tr i) ! nat m)\<lparr>key_selected := select\<rparr>
            else keys (subTrack tr i) ! nat m)"
proof -
  let ?W = "\<lambda>m. \<bar>f32_round (sub_GetKeyTime (subTrack tr i) m - GetKeyTime tr f)\<bar> < timeEpsilon"
  have first: "\<not> ?W m'" if "?W m" "0 \<le> m'" "m' < m" for m'
  proof
    assume "?W m'"
    with one that m have "m = m'" by (intro one [rule_format]) simp
    with that show False by simp
  qed
  have "keys (subTrack (SelectKey tr f select) i) ! nat m =
      (if ?W m \<and> (\<forall>m'. 0 \<le> m' \<and> m' < m \<longrightarrow> \<not> ?W m')
       then (keys (subTrack tr i) ! nat m)\<lparr>key_selected := select\<rparr>
       else keys (subTrack tr i) ! nat m)"
    using SelectKey_first_within_epsilon [OF ok f, of select] i m by blast
  moreover have "(?W m \<and> (\<forall>m'. 0 \<le> m' \<and> m' < m \<longrightarrow> \<not> ?W m')) = ?W m"
    using first by blast
  ultimately show ?thesis by simp
qed

text \<open>
  The difference is compared after rounding. Two keys on different sub-tracks are
  \<open>137438953 / 2^37\<close> apart, which is below 1/1000 and below \<open>timeEpsilon\<close>; the float
  difference is rounded up to \<open>timeEpsilon\<close> itself, and selecting one of the keys leaves
  the other one as it is.
\<close>

lemma SelectKey_rounded_difference:
  "GetKeyTime trackEdge 0 = 8589934 / 2 ^ 33 \<and> GetKeyTime trackEdge 1 = - (9 / 2 ^ 37)
   \<and> \<bar>GetKeyTime trackEdge 1 - GetKeyTime trackEdge 0\<bar> < 1 / 1000
   \<and> \<bar>GetKeyTime trackEdge 1 - GetKeyTime trackEdge 0\<bar> < timeEpsilon
   \<and> \<bar>f32_round (GetKeyTime trackEdge 1 - GetKeyTime trackEdge 0)\<bar> = timeEpsilon
   \<and> IsKeySelected (SelectKey trackEdge 0 True) 0
   \<and> \<not> IsKeySelected (SelectKey trackEdge 0 True) 1"
proof -
  have t: "GetKeyTime trackEdge 0 = 8589934 / 2 ^ 33" "GetKeyTime trackEdge 1 = - (9 / 2 ^ 37)"
    by (simp_all add: eval_defs trackEdge_def)
  have r: "f32_round (- (9 / 2 ^ 37) - 8589934 / 2 ^ 33) = - (8589935 / 2 ^ 33)"
    by (simp add: f32_round_at [of "- 10"] rne_def)
  have z: "f32_round 0 = 0" by (simp add: f32_round_def)
  have "IsKeySelected (SelectKey trackEdge 0 True) 0
      \<and> \<not> IsKeySelected (SelectKey trackEdge 0 True) 1"
    using r z by (simp add: eval_defs select_defs trackEdge_def)
  then show ?thesis
    unfolding t r by (simp add: timeEpsilon_def)
qed

text \<open>
  C6. The claim has \<^verbatim>\<open>SelectKey(flatIndex, select)\<close> flag, in every active sub-track,
  exactly the keys within 0.001 of the time \<open>T\<close> of the addressed key, and the comment at
  lines 567-568 has all keys of the same time selected together. The scan of a sub-track
  breaks at its first key within \<open>timeEpsilon\<close>: with keys at times 0 and \<open>2^-11\<close> on one
  sub-track, none of them selected, \<^verbatim>\<open>SelectKey(1, true)\<close> flags the key at index 0 and
  leaves the addressed key, whose time is \<open>T\<close> itself, unselected.
\<close>

theorem SelectKey_leaves_addressed_key_unselected:
  "track_ok trackNear \<and> (0::int) \<le> 1 \<and> 1 < GetNumKeys trackNear
   \<and> GetKeyTime trackNear 0 = 0 \<and> GetKeyTime trackNear 1 = 1 / 2048
   \<and> \<not> IsKeySelected trackNear 0 \<and> \<not> IsKeySelected trackNear 1
   \<and> \<bar>f32_round (GetKeyTime trackNear 0 - GetKeyTime trackNear 1)\<bar> < timeEpsilon
   \<and> \<bar>f32_round (GetKeyTime trackNear 1 - GetKeyTime trackNear 1)\<bar> < timeEpsilon
   \<and> IsKeySelected (SelectKey trackNear 1 True) 0
   \<and> \<not> IsKeySelected (SelectKey trackNear 1 True) 1"
proof -
  have near: "f32_round (- (1 / 2048)) = - (1 / 2048)"
    by (simp add: f32_round_at [of "- 11"] rne_def)
  have same: "f32_round 0 = 0"
    by (simp add: f32_round_def)
  show ?thesis
    by (simp add: eval_defs select_defs trackNear_def track_ok_def MAX_SUBTRACKS_def near same)
qed


subsection \<open>Rotation continuity\<close>

lemma fmod_tpl_370: "fmod_tpl 370 360 = 10"
  by (simp add: fmod_tpl_def trunc_def)

lemma fmod_tpl_small: "fmod_tpl (- (1 / 2 ^ 20)) 360 = - (1 / 2 ^ 20)"
proof -
  have "\<lceil>- (1 / 2 ^ 20) / 360 :: real\<rceil> = 0"
    by (simp add: ceiling_eq_iff)
  then show ?thesis by (simp add: fmod_tpl_def trunc_def)
qed

lemma fmod_tpl_1e8: "fmod_tpl 100000000 360 = 280"
  by (simp add: fmod_tpl_def trunc_def)

lemma fmod_tpl_170: "fmod_tpl (- 170) 360 = - 170"
proof -
  have "\<lceil>- 170 / 360 :: real\<rceil> = 0"
    by (simp add: ceiling_eq_iff)
  then show ?thesis by (simp add: fmod_tpl_def trunc_def)
qed

lemma fmod_tpl_bound:
  assumes "0 < b"
  shows "\<bar>fmod_tpl a b\<bar> < b"
proof -
  have ab: "b * (a / b) = a" using assms by simp
  show ?thesis
  proof (cases "0 \<le> a")
    case True
    then have "0 \<le> a / b" using assms by simp
    then have t: "trunc (a / b) = \<lfloor>a / b\<rfloor>" by (simp add: trunc_def)
    have "b * of_int \<lfloor>a / b\<rfloor> \<le> b * (a / b)"
      using assms by (intro mult_left_mono) simp_all
    moreover have "b * (a / b) < b * (of_int \<lfloor>a / b\<rfloor> + 1)"
      using assms by (intro mult_strict_left_mono) (linarith, simp)
    ultimately show ?thesis unfolding fmod_tpl_def t ab by (simp add: algebra_simps abs_if)
  next
    case False
    then have "a / b < 0" using assms by (simp add: field_simps)
    then have t: "trunc (a / b) = \<lceil>a / b\<rceil>" by (simp add: trunc_def)
    have "b * (a / b) \<le> b * of_int \<lceil>a / b\<rceil>"
      using assms by (intro mult_left_mono) simp_all
    moreover have "b * (of_int \<lceil>a / b\<rceil> - 1) < b * (a / b)"
      using assms by (intro mult_strict_left_mono) (linarith, simp)
    ultimately show ?thesis unfolding fmod_tpl_def t ab by (simp add: algebra_simps abs_if)
  qed
qed

text \<open>
  The comparison of \<^verbatim>\<open>PreferShortestRotPath\<close> is between rounded differences. Rounding
  keeps the order, so that the alternate wrap is taken only when it is the closer one.
\<close>

lemma PreferShortestRotPath_alt_closer:
  assumes "- 181 < degree" and "degree < 181"
    and alt: "alt = (if degree \<ge> 0 then f32 (degree - 360) else f32 (degree + 360))"
    and prin: "prin = fmod_tpl degree0 360"
  shows "\<bar>f32 (alt - prin)\<bar> < \<bar>f32 (degree - prin)\<bar> \<Longrightarrow> \<bar>alt - prin\<bar> < \<bar>degree - prin\<bar>"
    and "\<bar>alt - prin\<bar> \<le> \<bar>degree - prin\<bar> \<Longrightarrow> \<bar>f32 (alt - prin)\<bar> \<le> \<bar>f32 (degree - prin)\<bar>"
proof -
  have p: "\<bar>prin\<bar> < 360" unfolding prin by (rule fmod_tpl_bound) simp
  have "\<bar>alt\<bar> \<le> 2 powi 9"
  proof (cases "degree \<ge> 0")
    case True
    then have b: "\<bar>degree - 360\<bar> \<le> 2 powi 9" using assms(2) by simp
    then have "f32 (degree - 360) = f32_round (degree - 360)" by (rule f32_eq_round) simp_all
    with True alt f32_round_bound [OF b] show ?thesis by simp
  next
    case False
    then have b: "\<bar>degree + 360\<bar> \<le> 2 powi 9" using assms(1) by simp
    then have "f32 (degree + 360) = f32_round (degree + 360)" by (rule f32_eq_round) simp_all
    with False alt f32_round_bound [OF b] show ?thesis by simp
  qed
  then have "\<bar>alt - prin\<bar> \<le> 2 powi 10" using p by simp
  then have a: "f32 (alt - prin) = f32_round (alt - prin)" by (rule f32_eq_round) simp_all
  have "\<bar>degree - prin\<bar> \<le> 2 powi 10" using p assms(1,2) by simp
  then have d: "f32 (degree - prin) = f32_round (degree - prin)" by (rule f32_eq_round) simp_all
  show "\<bar>alt - prin\<bar> < \<bar>degree - prin\<bar>" if less: "\<bar>f32 (alt - prin)\<bar> < \<bar>f32 (degree - prin)\<bar>"
  proof (rule ccontr)
    assume "\<not> \<bar>alt - prin\<bar> < \<bar>degree - prin\<bar>"
    then have "\<bar>degree - prin\<bar> \<le> \<bar>alt - prin\<bar>" by simp
    then have "\<bar>f32_round (degree - prin)\<bar> \<le> \<bar>f32_round (alt - prin)\<bar>"
      by (rule f32_round_abs_mono)
    with less a d show False by simp
  qed
  show "\<bar>f32 (alt - prin)\<bar> \<le> \<bar>f32 (degree - prin)\<bar>" if "\<bar>alt - prin\<bar> \<le> \<bar>degree - prin\<bar>"
    unfolding a d using that by (rule f32_round_abs_mono)
qed

text \<open>The run of \<^verbatim>\<open>PreferShortestRotPath\<close>, one float operation after the other.\<close>

lemma PreferShortestRotPath_trace:
  assumes "fmod_tpl degree0 360 = prin"
    and "f32 (degree0 - prin) = whole"
    and "f32 (whole / 360) = n"
    and "f32 (n * 360) = back"
    and "(if degree \<ge> 0 then f32 (degree - 360) else f32 (degree + 360)) = alt"
    and "f32 (alt - prin) = dAlt"
    and "f32 (degree - prin) = dDeg"
    and "f32 ((if \<bar>dAlt\<bar> < \<bar>dDeg\<bar> then alt else degree) + back) = r"
  shows "PreferShortestRotPath degree degree0 = r"
  using assms by (auto simp: PreferShortestRotPath_def Let_def)

lemma PreferShortestRotPath_370: "PreferShortestRotPath (- 10) 370 = 350"
proof (rule PreferShortestRotPath_trace)
  show "fmod_tpl 370 360 = 10" by (rule fmod_tpl_370)
  show "f32 (370 - 10) = 360" by (simp add: f32_small)
  show "f32 (360 / 360) = 1" by (simp add: f32_small)
  show "f32 (1 * 360) = 360" by (simp add: f32_small)
  show "(if (- 10 :: real) \<ge> 0 then f32 (- 10 - 360) else f32 (- 10 + 360)) = 350"
    by (simp add: f32_small)
  show "f32 (350 - 10) = 340" by (simp add: f32_small)
  show "f32 (- 10 - 10) = - 20" by (simp add: f32_small)
  show "f32 ((if \<bar>340 :: real\<bar> < \<bar>- 20\<bar> then 350 else - 10) + 360) = 350"
    by (simp add: f32_small)
qed

text \<open>
  Target 180 after the previous angle \<open>-2^-20\<close>: the two differences \<open>-180 + 2^-20\<close> and
  \<open>180 + 2^-20\<close> are both rounded to magnitude 180, and the target is kept.
\<close>

lemma PreferShortestRotPath_180: "PreferShortestRotPath 180 (- (1 / 2 ^ 20)) = 180"
proof (rule PreferShortestRotPath_trace)
  show "fmod_tpl (- (1 / 2 ^ 20)) 360 = - (1 / 2 ^ 20)" by (rule fmod_tpl_small)
  show "f32 (- (1 / 2 ^ 20) - - (1 / 2 ^ 20)) = 0" by (simp add: f32_0)
  show "f32 (0 / 360) = 0" by (simp add: f32_0)
  show "f32 (0 * 360) = 0" by (simp add: f32_0)
  show "(if (180 :: real) \<ge> 0 then f32 (180 - 360) else f32 (180 + 360)) = - 180"
    by (simp add: f32_small)
  show "f32 (- 180 - - (1 / 2 ^ 20)) = - 180"
    by (rule f32_eqI [of 7]; simp add: rne_def FLT_MAX_def)
  show "f32 (180 - - (1 / 2 ^ 20)) = 180"
    by (rule f32_eqI [of 7]; simp add: rne_def FLT_MAX_def)
  show "f32 ((if \<bar>- 180 :: real\<bar> < \<bar>180\<bar> then - 180 else 180) + 0) = 180"
    by (simp add: f32_small)
qed

text \<open>
  Target 10 after the previous angle \<open>10^8\<close>, a binary32 value: 277777 whole turns are
  99999720 degrees, and the sum 99999730 is rounded to the multiple 99999728 of 8.
\<close>

lemma PreferShortestRotPath_1e8: "PreferShortestRotPath 10 100000000 = 99999728"
proof (rule PreferShortestRotPath_trace)
  show "fmod_tpl 100000000 360 = 280" by (rule fmod_tpl_1e8)
  show "f32 (100000000 - 280) = 99999720"
    by (rule f32_eqI [of 26]; simp add: rne_def FLT_MAX_def)
  show "f32 (99999720 / 360) = 277777"
    by (rule f32_eqI [of 18]; simp add: rne_def FLT_MAX_def)
  show "f32 (277777 * 360) = 99999720"
    by (rule f32_eqI [of 26]; simp add: rne_def FLT_MAX_def)
  show "(if (10 :: real) \<ge> 0 then f32 (10 - 360) else f32 (10 + 360)) = - 350"
    by (simp, rule f32_eqI [of 8]; simp add: rne_def FLT_MAX_def)
  show "f32 (- 350 - 280) = - 630"
    by (rule f32_eqI [of 9]; simp add: rne_def FLT_MAX_def)
  show "f32 (10 - 280) = - 270"
    by (rule f32_eqI [of 8]; simp add: rne_def FLT_MAX_def)
  show "f32 ((if \<bar>- 630 :: real\<bar> < \<bar>- 270\<bar> then - 350 else 10) + 99999720) = 99999728"
    by (simp, rule f32_eqI [of 26]; simp add: rne_def FLT_MAX_def)
qed

text \<open>
  C1 (as stated, refuted). The claim has the result equal \<open>turns * 360\<close> plus whichever
  of the target and its alternate wrap is closer to \<open>previous mod 360\<close>. The source
  compares the two differences after rounding them to binary32, and rounds the final
  sum. For the target 180 and the previous angle \<open>-2^-20\<close> the alternate wrap -180 is
  the closer one, by \<open>2^-19\<close>, and \<open>turns\<close> is 0, so the claim gives -180; the result is 180.
  For the target 10 and the previous angle \<open>10^8\<close> the target is the closer one and
  \<open>turns\<close> is 277777, so the claim gives 99999730; the result is 99999728.
\<close>

theorem PreferShortestRotPath_rounding_counterexample:
  "(- 181 :: real) < 180 \<and> (180 :: real) < 181
   \<and> fmod_tpl (- (1 / 2 ^ 20)) 360 = - (1 / 2 ^ 20)
   \<and> \<bar>(180 - 360) - fmod_tpl (- (1 / 2 ^ 20)) 360\<bar> < \<bar>180 - fmod_tpl (- (1 / 2 ^ 20)) 360\<bar>
   \<and> (180 - 360) + (- (1 / 2 ^ 20) - fmod_tpl (- (1 / 2 ^ 20)) 360) / 360 * 360 = - 180
   \<and> PreferShortestRotPath 180 (- (1 / 2 ^ 20)) = 180
   \<and> (- 181 :: real) < 10 \<and> (10 :: real) < 181
   \<and> fmod_tpl 100000000 360 = 280
   \<and> \<not> \<bar>(10 - 360) - fmod_tpl 100000000 360\<bar> < \<bar>10 - fmod_tpl 100000000 360\<bar>
   \<and> 10 + (100000000 - fmod_tpl 100000000 360) / 360 * 360 = 99999730
   \<and> PreferShortestRotPath 10 100000000 = 99999728"
  unfolding fmod_tpl_small fmod_tpl_1e8 PreferShortestRotPath_180 PreferShortestRotPath_1e8
  by simp

text \<open>
  C1 (amended). For every target angle \<open>degree\<close> in the open range (-181, 181) and every
  previous stored angle \<open>degree0\<close>, the result is the claim's formula computed in
  binary32, every operation rounded by \<open>f32\<close>: with \<open>principal = fmod_tpl degree0 360\<close>
  (which is exact), \<open>turns = f32 (f32 (degree0 - principal) / 360)\<close> and \<open>alt\<close> the
  alternate wrap of the target (\<open>f32 (degree - 360)\<close> if \<open>degree \<ge> 0\<close>, else
  \<open>f32 (degree + 360)\<close>), the result is \<open>f32 (closer + f32 (turns * 360))\<close>, where \<open>closer\<close>
  is whichever of \<open>degree\<close> and \<open>alt\<close> has the smaller rounded absolute difference to
  \<open>principal\<close> (the target when the rounded differences are equal). In exact terms: the
  alternate wrap is taken only when it is closer to \<open>principal\<close> than the target, and the
  target is kept only when it is at least as close as the alternate wrap or the two
  differences are rounded to the same magnitude. For \<open>degree0 = 370\<close> and \<open>degree = -10\<close>
  the result is exactly 350, not -10. Where the product or the final sum overflows, the
  source returns an infinity and \<open>f32\<close> is unspecified: nothing is stated about it.
\<close>

theorem PreferShortestRotPath_binary32:
  assumes "- 181 < degree" and "degree < 181"
  shows "(let principal = fmod_tpl degree0 360;
              turns = f32 (f32 (degree0 - principal) / 360);
              alt = (if degree \<ge> 0 then f32 (degree - 360) else f32 (degree + 360));
              takeAlt = (\<bar>f32 (alt - principal)\<bar> < \<bar>f32 (degree - principal)\<bar>);
              closer = (if takeAlt then alt else degree)
          in PreferShortestRotPath degree degree0 = f32 (closer + f32 (turns * 360))
             \<and> \<bar>f32 (closer - principal)\<bar> \<le> \<bar>f32 (degree - principal)\<bar>
             \<and> \<bar>f32 (closer - principal)\<bar> \<le> \<bar>f32 (alt - principal)\<bar>
             \<and> (takeAlt \<longrightarrow> \<bar>alt - principal\<bar> < \<bar>degree - principal\<bar>)
             \<and> (\<not> takeAlt \<longrightarrow> \<bar>degree - principal\<bar> \<le> \<bar>alt - principal\<bar>
                    \<or> \<bar>f32 (alt - principal)\<bar> = \<bar>f32 (degree - principal)\<bar>))
         \<and> PreferShortestRotPath (- 10) 370 = 350
         \<and> PreferShortestRotPath (- 10) 370 \<noteq> - 10"
proof -
  let ?p = "fmod_tpl degree0 360"
  let ?alt = "if degree \<ge> 0 then f32 (degree - 360) else f32 (degree + 360)"
  note order = PreferShortestRotPath_alt_closer [OF assms refl refl, of degree0]
  have taken: "\<bar>?alt - ?p\<bar> < \<bar>degree - ?p\<bar>"
    if "\<bar>f32 (?alt - ?p)\<bar> < \<bar>f32 (degree - ?p)\<bar>"
    using that by (rule order(1))
  have kept: "\<bar>degree - ?p\<bar> \<le> \<bar>?alt - ?p\<bar> \<or> \<bar>f32 (?alt - ?p)\<bar> = \<bar>f32 (degree - ?p)\<bar>"
    if "\<not> \<bar>f32 (?alt - ?p)\<bar> < \<bar>f32 (degree - ?p)\<bar>"
  proof (cases "\<bar>degree - ?p\<bar> \<le> \<bar>?alt - ?p\<bar>")
    case True
    then show ?thesis by simp
  next
    case False
    then have "\<bar>?alt - ?p\<bar> \<le> \<bar>degree - ?p\<bar>" by simp
    then have "\<bar>f32 (?alt - ?p)\<bar> \<le> \<bar>f32 (degree - ?p)\<bar>" by (rule order(2))
    with that show ?thesis by simp
  qed
  have run: "PreferShortestRotPath degree degree0 =
      f32 ((if \<bar>f32 (?alt - ?p)\<bar> < \<bar>f32 (degree - ?p)\<bar> then ?alt else degree)
           + f32 (f32 (f32 (degree0 - ?p) / 360) * 360))"
    by (simp add: PreferShortestRotPath_def Let_def)
  show ?thesis
  proof (cases "\<bar>f32 (?alt - ?p)\<bar> < \<bar>f32 (degree - ?p)\<bar>")
    case True
    with taken [OF True] run show ?thesis
      by (simp add: Let_def PreferShortestRotPath_370)
  next
    case False
    with kept [OF False] run show ?thesis
      by (simp add: Let_def PreferShortestRotPath_370)
  qed
qed

text \<open>
  The theorem at the target 170 after the previous angle -170: the alternate wrap -190
  is taken, and it is the closer one.
\<close>

theorem PreferShortestRotPath_binary32_witness:
  "(- 181 :: real) < 170 \<and> (170 :: real) < 181
   \<and> fmod_tpl (- 170) 360 = - 170
   \<and> f32 (f32 (- 170 - - 170) / 360) = 0
   \<and> f32 (170 - 360) = - 190
   \<and> \<bar>f32 (- 190 - - 170)\<bar> < \<bar>f32 (170 - - 170)\<bar>
   \<and> \<bar>- 190 - - 170 :: real\<bar> < \<bar>170 - - 170\<bar>
   \<and> PreferShortestRotPath 170 (- 170) = f32 (- 190 + f32 (0 * 360))
   \<and> PreferShortestRotPath 170 (- 170) = - 190"
proof -
  have lo: "(- 181 :: real) < 170" and hi: "(170 :: real) < 181" by simp_all
  have turns: "f32 (f32 (- 170 - - 170) / 360) = 0" by (simp add: f32_0)
  have alt: "f32 (170 - 360) = - 190"
    by (rule f32_eqI [of 7]; simp add: rne_def FLT_MAX_def)
  have dAlt: "f32 (- 190 - - 170) = - 20" by (simp add: f32_small)
  have dDeg: "f32 (170 - - 170) = 340" by (simp add: f32_small)
  have res: "f32 (- 190 + f32 (0 * 360)) = - 190"
    by (simp add: f32_0, rule f32_eqI [of 7]; simp add: rne_def FLT_MAX_def)
  have "PreferShortestRotPath 170 (- 170) = f32 (- 190 + f32 (0 * 360))
      \<and> \<bar>- 190 - - 170 :: real\<bar> < \<bar>170 - - 170\<bar>"
    using PreferShortestRotPath_binary32 [OF lo hi, of "- 170"]
    unfolding Let_def fmod_tpl_170 turns
    using alt dAlt dDeg by simp
  with turns alt dAlt dDeg res show ?thesis by (simp add: fmod_tpl_170)
qed

subsection \<open>Reading and writing values\<close>

lemma Vec3_at_set: "0 \<le> i \<Longrightarrow> i < 3 \<Longrightarrow> 0 \<le> j \<Longrightarrow> j < 3 \<Longrightarrow>
  Vec3_at (Vec3_set v i a) j = (if j = i then a else Vec3_at v j)"
  by (auto simp: Vec3_at_def Vec3_set_def)

lemma Vec4_at_set: "0 \<le> i \<Longrightarrow> i < 4 \<Longrightarrow> 0 \<le> j \<Longrightarrow> j < 4 \<Longrightarrow>
  Vec4_at (Vec4_set v i a) j = (if j = i then a else Vec4_at v j)"
  by (auto simp: Vec4_at_def Vec4_set_def)

lemma for_loop_Vec3_set:
  assumes "0 \<le> n" "n \<le> 3" "0 \<le> j" "j < 3"
  shows "Vec3_at (for_loop 0 n (\<lambda>i v. Vec3_set v i (g i)) v0) j = (if j < n then g j else Vec3_at v0 j)"
proof -
  let ?P = "\<lambda>i v. \<forall>j. 0 \<le> j \<and> j < 3 \<longrightarrow> Vec3_at v j = (if j < i then g j else Vec3_at v0 j)"
  have "?P n (for_loop 0 n (\<lambda>i v. Vec3_set v i (g i)) v0)"
  proof (rule for_loop_invariant [where P = ?P])
    show "0 \<le> n" by fact
    show "?P 0 v0" by simp
  next
    fix i v assume "0 \<le> i" "i < n" "?P i v"
    then show "?P (i + 1) (Vec3_set v i (g i))"
      using assms(2) by (auto simp: Vec3_at_set)
  qed
  with assms show ?thesis by blast
qed

lemma for_loop_Vec4_set:
  assumes "0 \<le> n" "n \<le> 4" "0 \<le> j" "j < 4"
  shows "Vec4_at (for_loop 0 n (\<lambda>i v. Vec4_set v i (g i)) v0) j = (if j < n then g j else Vec4_at v0 j)"
proof -
  let ?P = "\<lambda>i v. \<forall>j. 0 \<le> j \<and> j < 4 \<longrightarrow> Vec4_at v j = (if j < i then g j else Vec4_at v0 j)"
  have "?P n (for_loop 0 n (\<lambda>i v. Vec4_set v i (g i)) v0)"
  proof (rule for_loop_invariant [where P = ?P])
    show "0 \<le> n" by fact
    show "?P 0 v0" by simp
  next
    fix i v assume "0 \<le> i" "i < n" "?P i v"
    then show "?P (i + 1) (Vec4_set v i (g i))"
      using assms(2) by (auto simp: Vec4_at_set)
  qed
  with assms show ?thesis by blast
qed

text \<open>What a loop of per-sub-track writes leaves in each slot.\<close>

lemma write_loop_active:
  assumes "0 \<le> n" "n \<le> int (length (m_subTracks tr))" "0 \<le> i" "i < n"
  shows "subTrack (for_loop 0 n (\<lambda>k t. updSubTrack t k (F k)) tr) i = F i (subTrack tr i)"
proof -
  have "nat i < length (m_subTracks tr)" using assms by simp
  with for_loop_updSubTrack [OF assms(1) refl, of F tr]
  have "m_subTracks (for_loop 0 n (\<lambda>k t. updSubTrack t k (F k)) tr) ! nat i =
     (if int (nat i) < n then F (int (nat i)) (m_subTracks tr ! nat i) else m_subTracks tr ! nat i)"
    by blast
  then show ?thesis using assms by (simp add: subTrack_def)
qed

lemma write_loop_inactive:
  assumes "0 \<le> n" "nat n \<le> j" "j < length (m_subTracks tr)"
  shows "m_subTracks (for_loop 0 n (\<lambda>k t. updSubTrack t k (F k)) tr) ! j = m_subTracks tr ! j"
proof -
  from for_loop_updSubTrack [OF assms(1) refl, of F tr] assms(3)
  have "m_subTracks (for_loop 0 n (\<lambda>k t. updSubTrack t k (F k)) tr) ! j =
     (if int j < n then F (int j) (m_subTracks tr ! j) else m_subTracks tr ! j)"
    by blast
  moreover have "\<not> int j < n" using assms by linarith
  ultimately show ?thesis by simp
qed

lemma GetValue_float_first:
  "GetValue_float tr time v0 m =
     (if 0 < m_nDimensions tr then sub_GetValue (subTrack tr 0) time m else v0)"
proof (cases "0 < m_nDimensions tr")
  case True
  then have "min 1 (m_nDimensions tr) = 1" by simp
  then show ?thesis
    using True by (simp add: GetValue_float_def for_loop.simps)
next
  case False
  then show ?thesis
    by (simp add: GetValue_float_def for_loop_done)
qed

lemma GetValue_Quat_3:
  assumes "m_nDimensions tr = 3"
  shows "GetValue_Quat C tr time =
     C \<lparr>vx = DEG2RAD (sub_GetValue (subTrack tr 0) time False),
        vy = DEG2RAD (sub_GetValue (subTrack tr 1) time False),
        vz = DEG2RAD (sub_GetValue (subTrack tr 2) time False)\<rparr>"
  using assms
  by (simp add: GetValue_Quat_def for_loop_Vec3_set Let_def)

lemmas value_defs = SetValue_float_def GetValue_float_def sub_SetValue_def sub_GetValue_def
  keyAt_def updSubTrack_def

text \<open>
  C10. For every compound track whose dimension count is not 3, the quaternion
  \<^verbatim>\<open>GetValue\<close> yields the identity rotation, and the quaternion \<^verbatim>\<open>SetValue\<close> writes
  nothing: the track, with every sub-track's keys and values, is as before.
\<close>

theorem Quat_dimension_mismatch:
  assumes "m_nDimensions tr \<noteq> 3"
  shows "GetValue_Quat CreateRotationXYZ tr time = Quat_identity
         \<and> SetValue_Quat GetAnglesXYZ tr time q bDefault = tr"
  using assms by (simp add: GetValue_Quat_def SetValue_Quat_def)

theorem Quat_dimension_mismatch_witness:
  "m_nDimensions trackAB \<noteq> 3
   \<and> GetValue_Quat (\<lambda>a. \<lparr>qw = 0, qx = 1, qy = 0, qz = 0\<rparr>) trackAB 0 = \<lparr>qw = 1, qx = 0, qy = 0, qz = 0\<rparr>
   \<and> SetValue_Quat (\<lambda>q. \<lparr>vx = 1, vy = 2, vz = 3\<rparr>) trackAB 0 \<lparr>qw = 0, qx = 1, qy = 0, qz = 0\<rparr> False
       = trackAB"
proof -
  have h: "m_nDimensions trackAB \<noteq> 3" by (simp add: trackAB_def)
  show ?thesis
    using Quat_dimension_mismatch [OF h, of "\<lambda>a. \<lparr>qw = 0, qx = 1, qy = 0, qz = 0\<rparr>" 0
        "\<lambda>q. \<lparr>vx = 1, vy = 2, vz = 3\<rparr>" "\<lparr>qw = 0, qx = 1, qy = 0, qz = 0\<rparr>" False] h
    by (simp add: Quat_identity_def)
qed

text \<open>
  C8 (as stated, refuted). The claim has the float \<^verbatim>\<open>SetValue\<close> write to the first active
  sub-track only. Its loop runs over all active sub-tracks: on the two-dimensional
  example track, \<open>SetValue(5, 7)\<close> changes sub-track 1, which then reads 7 at time 5.
\<close>

theorem SetValue_float_counterexample:
  "track_ok trackAB \<and> m_nDimensions trackAB = 2
   \<and> keys (subTrack (SetValue_float trackAB 5 7 False False) 1) \<noteq> keys (subTrack trackAB 1)
   \<and> sub_GetValue (subTrack (SetValue_float trackAB 5 7 False False) 1) 5 False = 7
   \<and> sub_GetValue (subTrack trackAB 1) 5 False = 0"
  by (simp add: value_defs eval_defs trackAB_def track_ok_def MAX_SUBTRACKS_def)

text \<open>
  C8 (amended). For the \<^verbatim>\<open>Vec3\<close>, \<^verbatim>\<open>Vec4\<close> and quaternion shapes \<^verbatim>\<open>SetValue\<close> mirrors
  \<^verbatim>\<open>GetValue\<close>: component \<open>i\<close> is read from, and written to, active sub-track \<open>i\<close> (the
  quaternion shape through its three Euler angles in degrees, on a track of dimension
  3). The float shape is not symmetric: \<^verbatim>\<open>GetValue\<close> reads the first active sub-track
  only, and \<^verbatim>\<open>SetValue(time, value, isDefaultKey, applyMultiplier)\<close> writes the value to
  every active sub-track, passing both flags on.
\<close>

theorem SetValue_GetValue_shapes:
  assumes ok: "track_ok tr"
  shows "GetValue_float tr time f0 m =
           (if 0 < m_nDimensions tr then sub_GetValue (subTrack tr 0) time m else f0)
     \<and> (\<forall>i. 0 \<le> i \<and> i < m_nDimensions tr \<longrightarrow>
           subTrack (SetValue_float tr time f d m) i = sub_SetValue (subTrack tr i) time f d m)
     \<and> (\<forall>i. 0 \<le> i \<and> i < m_nDimensions tr \<and> m_nDimensions tr \<le> 3 \<longrightarrow>
           Vec3_at (GetValue_Vec3 tr time v0 m) i = sub_GetValue (subTrack tr i) time m)
     \<and> (\<forall>i. 0 \<le> i \<and> i < m_nDimensions tr \<longrightarrow>
           subTrack (SetValue_Vec3 tr time v d m) i =
             sub_SetValue (subTrack tr i) time (Vec3_at v i) d m)
     \<and> (\<forall>i. 0 \<le> i \<and> i < m_nDimensions tr \<longrightarrow>
           Vec4_at (GetValue_Vec4 tr time w0 m) i = sub_GetValue (subTrack tr i) time m)
     \<and> (\<forall>i. 0 \<le> i \<and> i < m_nDimensions tr \<longrightarrow>
           subTrack (SetValue_Vec4 tr time w d m) i =
             sub_SetValue (subTrack tr i) time (Vec4_at w i) d m)
     \<and> (m_nDimensions tr = 3 \<longrightarrow>
           GetValue_Quat C tr time =
             C \<lparr>vx = DEG2RAD (sub_GetValue (subTrack tr 0) time False),
                vy = DEG2RAD (sub_GetValue (subTrack tr 1) time False),
                vz = DEG2RAD (sub_GetValue (subTrack tr 2) time False)\<rparr>
           \<and> (\<forall>i. 0 \<le> i \<and> i < 3 \<longrightarrow>
                 subTrack (SetValue_Quat G tr time q d) i =
                   sub_SetValue (subTrack tr i) time
                     (SetValue_Quat_degree (G q) time d i (subTrack tr i)) d False))"
proof -
  let ?n = "m_nDimensions tr"
  have n: "0 \<le> ?n" "?n \<le> int (length (m_subTracks tr))" "?n \<le> 4"
    using ok by (simp_all add: track_ok_def MAX_SUBTRACKS_def)
  have c1: "GetValue_float tr time f0 m =
           (if 0 < ?n then sub_GetValue (subTrack tr 0) time m else f0)"
    by (rule GetValue_float_first)
  have c2: "\<forall>i. 0 \<le> i \<and> i < ?n \<longrightarrow>
           subTrack (SetValue_float tr time f d m) i = sub_SetValue (subTrack tr i) time f d m"
    using n by (simp add: SetValue_float_def write_loop_active)
  have c3: "\<forall>i. 0 \<le> i \<and> i < ?n \<and> ?n \<le> 3 \<longrightarrow>
           Vec3_at (GetValue_Vec3 tr time v0 m) i = sub_GetValue (subTrack tr i) time m"
    using n by (simp add: GetValue_Vec3_def for_loop_Vec3_set)
  have c4: "\<forall>i. 0 \<le> i \<and> i < ?n \<longrightarrow>
           subTrack (SetValue_Vec3 tr time v d m) i =
             sub_SetValue (subTrack tr i) time (Vec3_at v i) d m"
    using n by (simp add: SetValue_Vec3_def write_loop_active)
  have c5: "\<forall>i. 0 \<le> i \<and> i < ?n \<longrightarrow>
           Vec4_at (GetValue_Vec4 tr time w0 m) i = sub_GetValue (subTrack tr i) time m"
    using n by (simp add: GetValue_Vec4_def for_loop_Vec4_set)
  have c6: "\<forall>i. 0 \<le> i \<and> i < ?n \<longrightarrow>
           subTrack (SetValue_Vec4 tr time w d m) i =
             sub_SetValue (subTrack tr i) time (Vec4_at w i) d m"
    using n by (simp add: SetValue_Vec4_def write_loop_active)
  have c7: "?n = 3 \<longrightarrow>
           GetValue_Quat C tr time =
             C \<lparr>vx = DEG2RAD (sub_GetValue (subTrack tr 0) time False),
                vy = DEG2RAD (sub_GetValue (subTrack tr 1) time False),
                vz = DEG2RAD (sub_GetValue (subTrack tr 2) time False)\<rparr>
           \<and> (\<forall>i. 0 \<le> i \<and> i < 3 \<longrightarrow>
                 subTrack (SetValue_Quat G tr time q d) i =
                   sub_SetValue (subTrack tr i) time
                     (SetValue_Quat_degree (G q) time d i (subTrack tr i)) d False)"
  proof
    assume three: "?n = 3"
    then have len: "3 \<le> int (length (m_subTracks tr))" using n by simp
    have "subTrack (SetValue_Quat G tr time q d) i =
                   sub_SetValue (subTrack tr i) time
                     (SetValue_Quat_degree (G q) time d i (subTrack tr i)) d False"
      if "0 \<le> i \<and> i < 3" for i
      using three len that
      by (simp add: SetValue_Quat_def Let_def write_loop_active)
    with three show "GetValue_Quat C tr time =
             C \<lparr>vx = DEG2RAD (sub_GetValue (subTrack tr 0) time False),
                vy = DEG2RAD (sub_GetValue (subTrack tr 1) time False),
                vz = DEG2RAD (sub_GetValue (subTrack tr 2) time False)\<rparr>
           \<and> (\<forall>i. 0 \<le> i \<and> i < 3 \<longrightarrow>
                 subTrack (SetValue_Quat G tr time q d) i =
                   sub_SetValue (subTrack tr i) time
                     (SetValue_Quat_degree (G q) time d i (subTrack tr i)) d False)"
      by (simp add: GetValue_Quat_3)
  qed
  from c1 c2 c3 c4 c5 c6 c7 show ?thesis by (intro conjI)
qed

theorem SetValue_GetValue_shapes_witness:
  "track_ok trackAB
   \<and> GetValue_float trackAB 0 99 False = 10
   \<and> subTrack (SetValue_float trackAB 5 7 False False) 0
        = sub_SetValue (subTrack trackAB 0) 5 7 False False
   \<and> subTrack (SetValue_float trackAB 5 7 False False) 1
        = sub_SetValue (subTrack trackAB 1) 5 7 False False"
proof -
  have ok: "track_ok trackAB"
    by (simp add: track_ok_def trackAB_def MAX_SUBTRACKS_def)
  have d: "m_nDimensions trackAB = 2" by (simp add: trackAB_def)
  note T = SetValue_GetValue_shapes [OF ok, where time = 5 and f = 7 and d = False and m = False]
  from T have "\<forall>i. 0 \<le> i \<and> i < m_nDimensions trackAB \<longrightarrow>
      subTrack (SetValue_float trackAB 5 7 False False) i
        = sub_SetValue (subTrack trackAB i) 5 7 False False"
    by blast
  then have "subTrack (SetValue_float trackAB 5 7 False False) 0
        = sub_SetValue (subTrack trackAB 0) 5 7 False False
     \<and> subTrack (SetValue_float trackAB 5 7 False False) 1
        = sub_SetValue (subTrack trackAB 1) 5 7 False False"
    using d by simp
  moreover have "GetValue_float trackAB 0 99 False = 10"
    by (simp add: value_defs eval_defs trackAB_def)
  ultimately show ?thesis using ok by simp
qed


subsection \<open>Offsetting all keys\<close>

lemma keyAt_nth:
  "distinct (map key_time ks) \<Longrightarrow> k < length ks \<Longrightarrow> keyAt ks (key_time (ks ! k)) = Some (ks ! k)"
proof (induction ks arbitrary: k)
  case Nil
  then show ?case by simp
next
  case (Cons a ks)
  show ?case
  proof (cases k)
    case 0
    then show ?thesis by (simp add: keyAt_def)
  next
    case (Suc j)
    with Cons.prems have j: "j < length ks" and "key_time (ks ! j) \<in> set (map key_time ks)"
      by simp_all
    with Cons.prems have "key_time a \<noteq> key_time (ks ! j)" by auto
    with Cons.IH [of j] Cons.prems j show ?thesis
      by (simp add: keyAt_def Suc)
  qed
qed

lemma setKeyValue_nth:
  "distinct (map key_time ks) \<Longrightarrow> k < length ks \<Longrightarrow>
   setKeyValue (key_time (ks ! k)) v ks = ks[k := (ks ! k)\<lparr>key_value := v\<rparr>]"
proof (induction ks arbitrary: k)
  case Nil
  then show ?case by simp
next
  case (Cons a ks)
  show ?case
  proof (cases k)
    case 0
    then show ?thesis by simp
  next
    case (Suc j)
    with Cons.prems have j: "j < length ks" and "key_time (ks ! j) \<in> set (map key_time ks)"
      by simp_all
    with Cons.prems have "key_time a \<noteq> key_time (ks ! j)" by auto
    with Cons.IH [of j] Cons.prems j show ?thesis
      by (simp add: Suc)
  qed
qed

text \<open>One round of the inner loop at local index k, on a sub-track with distinct key times.\<close>

lemma OffsetKeyPosition_round:
  assumes d: "distinct (map key_time (keys s))" and k: "0 \<le> k" "k < sub_GetNumKeys s"
  shows "(let time = sub_GetKeyTime s k; v = sub_GetValue s time False
          in sub_SetValue s time (f32 (v + off)) False False)
         = s\<lparr>keys := (keys s)[nat k := addValue off (keys s ! nat k)]\<rparr>"
proof -
  have len: "nat k < length (keys s)" using k by (simp add: sub_GetNumKeys_def)
  have t: "sub_GetKeyTime s k = key_time (keys s ! nat k)"
    using k by (simp add: sub_GetKeyTime_def)
  have at: "keyAt (keys s) (key_time (keys s ! nat k)) = Some (keys s ! nat k)"
    using d len by (rule keyAt_nth)
  show ?thesis
    by (simp add: Let_def t sub_GetValue_def sub_SetValue_def at setKeyValue_nth [OF d len]
        addValue_def)
qed

lemma OffsetKeyPosition_sub_keys:
  assumes d: "distinct (map key_time (keys s))"
  shows "OffsetKeyPosition_sub off s = s\<lparr>keys := map (addValue off) (keys s)\<rparr>"
proof -
  let ?n = "sub_GetNumKeys s"
  let ?body = "\<lambda>k s'. let time = sub_GetKeyTime s' k; v = sub_GetValue s' time False
                        in sub_SetValue s' time (f32 (v + off)) False False"
  let ?P = "\<lambda>k (s'::subtrack). interpolate s' = interpolate s \<and> length (keys s') = length (keys s)
      \<and> (\<forall>j < length (keys s). keys s' ! j =
            (if int j < k then addValue off (keys s ! j) else keys s ! j))"
  have "?P ?n (for_loop 0 ?n ?body s)"
  proof (rule for_loop_invariant [where P = ?P])
    show "0 \<le> ?n" by (simp add: sub_GetNumKeys_def)
    show "?P 0 s" by simp
  next
    fix k s'
    assume k: "0 \<le> k" "k < ?n" and P: "?P k s'"
    have times: "map key_time (keys s') = map key_time (keys s)"
      using P by (intro nth_equalityI) (auto simp: addValue_def)
    then have d': "distinct (map key_time (keys s'))" using d by simp
    have k': "k < sub_GetNumKeys s'" using k P by (simp add: sub_GetNumKeys_def)
    have round: "?body k s' = s'\<lparr>keys := (keys s')[nat k := addValue off (keys s' ! nat k)]\<rparr>"
      using d' k(1) k' by (rule OffsetKeyPosition_round)
    have kth: "keys s' ! nat k = keys s ! nat k"
      using P k by (simp add: sub_GetNumKeys_def)
    show "?P (k + 1) (?body k s')"
      unfolding round using P k kth
      by (auto simp: nth_list_update sub_GetNumKeys_def)
  qed
  then have "interpolate (OffsetKeyPosition_sub off s) = interpolate s"
    and "keys (OffsetKeyPosition_sub off s) = map (addValue off) (keys s)"
    unfolding OffsetKeyPosition_sub_def
    by (simp, intro nth_equalityI) (auto simp: sub_GetNumKeys_def)
  then show ?thesis by simp
qed


lemma GetNumKeys_cong:
  assumes "m_nDimensions tr' = m_nDimensions tr" "0 \<le> m_nDimensions tr"
    "\<forall>i. 0 \<le> i \<and> i < m_nDimensions tr \<longrightarrow>
        sub_GetNumKeys (subTrack tr' i) = sub_GetNumKeys (subTrack tr i)"
  shows "GetNumKeys tr' = GetNumKeys tr"
proof -
  have "sub_GetNumKeys (m_subTracks tr' ! j) = sub_GetNumKeys (m_subTracks tr ! j)"
    if "j \<in> {..< nat (m_nDimensions tr)}" for j
    using assms(3) that by (auto simp: subTrack_def dest: spec [of _ "int j"])
  then have "keysBefore tr' (m_nDimensions tr) = keysBefore tr (m_nDimensions tr)"
    unfolding keysBefore_def by (rule sum.cong [OF refl])
  then show ?thesis using assms(1,2) by (simp add: GetNumKeys_sum)
qed

lemmas offset_defs = OffsetKeyPosition_def OffsetKeyPosition_sub_def Vec3_at_def

text \<open>
  On a track whose sub-tracks each have pairwise distinct key times,
  \<^verbatim>\<open>OffsetKeyPosition(v)\<close> replaces every key's value by the float sum of the value and
  the matching component of \<open>v\<close>, leaves the key times and selection flags as they are,
  creates no key, and leaves \<^verbatim>\<open>GetNumKeys()\<close> unchanged.
\<close>

lemma OffsetKeyPosition_distinct_times:
  assumes ok: "track_ok tr" and three: "m_nDimensions tr = 3"
    and d: "\<forall>i. 0 \<le> i \<and> i < 3 \<longrightarrow> distinct (map key_time (keys (subTrack tr i)))"
  shows "(\<forall>i. 0 \<le> i \<and> i < 3 \<longrightarrow>
            keys (subTrack (OffsetKeyPosition tr offset) i) =
              map (\<lambda>k. k\<lparr>key_value := f32 (key_value k + Vec3_at offset i)\<rparr>) (keys (subTrack tr i))
            \<and> interpolate (subTrack (OffsetKeyPosition tr offset) i) = interpolate (subTrack tr i))
         \<and> GetNumKeys (OffsetKeyPosition tr offset) = GetNumKeys tr
         \<and> m_nDimensions (OffsetKeyPosition tr offset) = 3"
proof -
  let ?tr' = "OffsetKeyPosition tr offset"
  let ?F = "\<lambda>i. OffsetKeyPosition_sub (Vec3_at offset i)"
  have loop: "?tr' = for_loop 0 3 (\<lambda>i t. updSubTrack t i (?F i)) tr"
    using three by (simp add: OffsetKeyPosition_def)
  have len: "3 \<le> int (length (m_subTracks tr))"
    using ok three by (simp add: track_ok_def)
  have dims: "m_nDimensions ?tr' = 3"
    using for_loop_updSubTrack [OF _ loop] three by simp
  have sub: "subTrack ?tr' i =
      (subTrack tr i)\<lparr>keys := map (addValue (Vec3_at offset i)) (keys (subTrack tr i))\<rparr>"
    if i: "0 \<le> i \<and> i < 3" for i
  proof -
    have "subTrack ?tr' i = ?F i (subTrack tr i)"
      unfolding loop using len i by (intro write_loop_active) simp_all
    moreover have "distinct (map key_time (keys (subTrack tr i)))" using d i by blast
    ultimately show ?thesis by (simp add: OffsetKeyPosition_sub_keys)
  qed
  have keys: "\<forall>i. 0 \<le> i \<and> i < 3 \<longrightarrow>
            keys (subTrack ?tr' i) =
              map (\<lambda>k. k\<lparr>key_value := f32 (key_value k + Vec3_at offset i)\<rparr>) (keys (subTrack tr i))
            \<and> interpolate (subTrack ?tr' i) = interpolate (subTrack tr i)"
    using sub by (simp add: addValue_def [abs_def])
  have "\<forall>i. 0 \<le> i \<and> i < m_nDimensions tr \<longrightarrow>
        sub_GetNumKeys (subTrack ?tr' i) = sub_GetNumKeys (subTrack tr i)"
    using sub three by (simp add: sub_GetNumKeys_def)
  then have "GetNumKeys ?tr' = GetNumKeys tr"
    using dims three by (intro GetNumKeys_cong) simp_all
  with keys dims show ?thesis by blast
qed

text \<open>
  C7. The claim, like the comments at lines 264-267 (\<^verbatim>\<open>Iterate over all keys\<close>,
  \<^verbatim>\<open>Offset each key\<close>), has every existing key's value raised by the matching component
  of the offset. The loop reads and writes each key through its time: where two keys of
  a sub-track share a time, both rounds serve the first of them. With keys of values 1
  and 2 at time 0 on the first sub-track and the offset (10, 0, 0), the values become
  21 and 2, not 11 and 12.
\<close>

theorem OffsetKeyPosition_duplicate_time:
  "track_ok trackDup \<and> m_nDimensions trackDup = 3
   \<and> map key_time (keys (subTrack trackDup 0)) = [0, 0]
   \<and> map key_value (keys (subTrack trackDup 0)) = [1, 2]
   \<and> [f32 (1 + 10), f32 (2 + 10)] = [11, 12]
   \<and> map key_value (keys (subTrack (OffsetKeyPosition trackDup \<lparr>vx = 10, vy = 0, vz = 0\<rparr>) 0))
       = [21, 2]
   \<and> GetNumKeys (OffsetKeyPosition trackDup \<lparr>vx = 10, vy = 0, vz = 0\<rparr>) = 2"
  by (simp add: offset_defs value_defs eval_defs trackDup_def track_ok_def MAX_SUBTRACKS_def
      f32_small)


subsection \<open>Parent rebase\<close>

lemma for_loop_0_3: "for_loop 0 3 body s = body 2 (body 1 (body 0 s))"
  by (simp add: for_loop.simps)

lemma keyAt_None_iff: "keyAt ks t = None \<longleftrightarrow> t \<notin> key_time ` set ks"
  by (auto simp: keyAt_def find_None_iff)

lemma keyAt_setKeyValue:
  "map_option key_value (keyAt (setKeyValue t v ks) t') =
     (if t' = t \<and> keyAt ks t \<noteq> None then Some v else map_option key_value (keyAt ks t'))"
  by (induction ks) (auto simp: keyAt_def)

lemma keyAt_insertKey:
  "keyAt ks (key_time new) = None \<Longrightarrow>
   keyAt (insertKey new ks) t' = (if t' = key_time new then Some new else keyAt ks t')"
  by (induction ks) (auto simp: keyAt_def split: if_splits)

lemma stored_SetValue:
  "stored (sub_SetValue s t v d m) t' = (if t' = t then Some v else stored s t')"
proof (cases "keyAt (keys s) t")
  case None
  then show ?thesis
    by (simp add: stored_def sub_SetValue_def keyAt_insertKey)
next
  case (Some k)
  then show ?thesis
    by (simp add: stored_def sub_SetValue_def keyAt_setKeyValue)
qed

lemma GetValue_stored: "stored s t = Some v \<Longrightarrow> sub_GetValue s t m = v"
  by (auto simp: stored_def sub_GetValue_def split: option.splits)

lemma stored_dom: "stored s t \<noteq> None \<longleftrightarrow> t \<in> key_time ` set (keys s)"
  using keyAt_None_iff [of "keys s" t] by (simp add: stored_def)

lemma readVector_eq:
  "readVector tr t = \<lparr>vx = sub_GetValue (subTrack tr 0) t False,
                      vy = sub_GetValue (subTrack tr 1) t False,
                      vz = sub_GetValue (subTrack tr 2) t False\<rparr>"
  by (simp add: readVector_def for_loop_0_3 Vec3_set_def)

lemma Vec3_at_readVector:
  "0 \<le> i \<Longrightarrow> i < 3 \<Longrightarrow> Vec3_at (readVector tr t) i = sub_GetValue (subTrack tr i) t False"
proof -
  assume "0 \<le> i" "i < 3"
  then have "i = 0 \<or> i = 1 \<or> i = 2" by arith
  then show ?thesis by (auto simp: readVector_eq Vec3_at_def)
qed

lemma Vec3_eqI:
  assumes "\<forall>i. 0 \<le> i \<and> i < 3 \<longrightarrow> Vec3_at a i = Vec3_at b i"
  shows "a = (b :: Vec3)"
proof -
  from assms have "Vec3_at a 0 = Vec3_at b 0" "Vec3_at a 1 = Vec3_at b 1" "Vec3_at a 2 = Vec3_at b 2"
    by simp_all
  then show ?thesis by (simp add: Vec3_at_def)
qed

lemma writeVector_frame:
  "m_nDimensions (writeVector tr t v) = m_nDimensions tr"
  "m_nParamType (writeVector tr t v) = m_nParamType tr"
  "length (m_subTracks (writeVector tr t v)) = length (m_subTracks tr)"
  using for_loop_updSubTrack [of 3 "writeVector tr t v"
      "\<lambda>i s. sub_SetValue s t (Vec3_at v i) False False" tr]
  by (simp_all add: writeVector_def)

lemma writeVector_sub:
  assumes "3 \<le> length (m_subTracks tr)" "0 \<le> i" "i < 3"
  shows "subTrack (writeVector tr t v) i = sub_SetValue (subTrack tr i) t (Vec3_at v i) False False"
  unfolding writeVector_def using assms by (intro write_loop_active) simp_all

lemma rewriteAt_frame:
  "m_nDimensions (rewriteAt F t tr) = m_nDimensions tr"
  "m_nParamType (rewriteAt F t tr) = m_nParamType tr"
  "length (m_subTracks (rewriteAt F t tr)) = length (m_subTracks tr)"
  by (simp_all add: rewriteAt_def writeVector_frame)

lemma rewriteAt_stored:
  assumes "3 \<le> length (m_subTracks tr)" "0 \<le> i" "i < 3"
  shows "stored (subTrack (rewriteAt F t tr) i) t' =
     (if t' = t then Some (Vec3_at (F (readVector tr t)) i) else stored (subTrack tr i) t')"
  using assms by (simp add: rewriteAt_def writeVector_sub stored_SetValue)

lemma fold_rewriteAt_frame:
  "m_nDimensions (fold (rewriteAt F) ts tr) = m_nDimensions tr
   \<and> m_nParamType (fold (rewriteAt F) ts tr) = m_nParamType tr
   \<and> length (m_subTracks (fold (rewriteAt F) ts tr)) = length (m_subTracks tr)"
  by (induction ts arbitrary: tr) (simp_all add: rewriteAt_frame)

lemma fold_rewriteAt_other:
  assumes "3 \<le> length (m_subTracks tr)" "0 \<le> i" "i < 3" "t \<notin> set ts"
  shows "stored (subTrack (fold (rewriteAt F) ts tr) i) t = stored (subTrack tr i) t"
  using assms
proof (induction ts arbitrary: tr)
  case Nil
  then show ?case by simp
next
  case (Cons a ts)
  have "stored (subTrack (fold (rewriteAt F) ts (rewriteAt F a tr)) i) t
      = stored (subTrack (rewriteAt F a tr) i) t"
    using Cons.prems by (intro Cons.IH) (simp_all add: rewriteAt_frame)
  also have "\<dots> = stored (subTrack tr i) t"
    using Cons.prems by (simp add: rewriteAt_stored)
  finally show ?case by simp
qed

text \<open>The value stored at a collected time after the pass, from the state just before that time.\<close>

lemma fold_rewriteAt_at:
  assumes "3 \<le> length (m_subTracks tr)" "0 \<le> i" "i < 3" "distinct (pre @ t # post)"
  shows "stored (subTrack (fold (rewriteAt F) (pre @ t # post) tr) i) t =
     Some (Vec3_at (F (readVector (fold (rewriteAt F) pre tr) t)) i)"
proof -
  let ?trt = "fold (rewriteAt F) pre tr"
  have len: "3 \<le> length (m_subTracks ?trt)"
    using assms(1) fold_rewriteAt_frame [of F pre tr] by simp
  have "stored (subTrack (fold (rewriteAt F) post (rewriteAt F t ?trt)) i) t
      = stored (subTrack (rewriteAt F t ?trt) i) t"
    using assms len by (intro fold_rewriteAt_other) (simp_all add: rewriteAt_frame)
  then show ?thesis
    using assms len by (simp add: rewriteAt_stored)
qed

lemma fold_rewriteAt_pre_read:
  assumes "3 \<le> length (m_subTracks tr)" "0 \<le> i" "i < 3" "t \<notin> set pre"
    "stored (subTrack tr i) t = Some v"
  shows "Vec3_at (readVector (fold (rewriteAt F) pre tr) t) i = v"
proof -
  have "stored (subTrack (fold (rewriteAt F) pre tr) i) t = Some v"
    using assms fold_rewriteAt_other [of tr i t pre F] by simp
  then show ?thesis
    using assms by (simp add: Vec3_at_readVector GetValue_stored)
qed

lemmas vec_defs = Vec3_add_def Vec3_sub_def Vec3_mul_def Vec3_scale_def Vec3_dot_def Vec3_cross_def
  Vec3_length_def vec3_def
lemmas tm_defs = Transform_mul_def Transform_det_def Transform_InvertFull_def
  Transform_ScaleExact_def Transform_EulerDegrees_def matrixOps_def atan2_def RAD2DEG_def

lemma flipTM_self_inverse: "Transform_InvertFull flipTM = flipTM"
  by (simp add: tm_defs vec_defs flipTM_def Let_def)

lemma turnStretchTM_scale:
  "Transform_ScaleExact turnStretchTM = vec3 2 1 1
   \<and> Transform_ScaleExact (Transform_InvertFull turnStretchTM) = vec3 1 (1 / 2) 1"
  by (simp add: tm_defs vec_defs turnStretchTM_def Let_def real_sqrt_divide)

lemma Transform_cases:
  obtains a1 a2 a3 b1 b2 b3 c1 c2 c3 p1 p2 p3 where "tm = \<lparr>m_basisX = \<lparr>vx = a1, vy = a2, vz = a3\<rparr>,
     m_basisY = \<lparr>vx = b1, vy = b2, vz = b3\<rparr>, m_basisZ = \<lparr>vx = c1, vy = c2, vz = c3\<rparr>,
     m_position = \<lparr>vx = p1, vy = p2, vz = p3\<rparr>\<rparr>"
  by (cases tm, cases "m_basisX tm", cases "m_basisY tm", cases "m_basisZ tm", cases "m_position tm") auto

lemma Transform_inverse_left:
  assumes "Transform_det tm \<noteq> 0"
  shows "Transform_mul (Transform_InvertFull tm) (Transform_mul tm v) = v"
proof -
  obtain a1 a2 a3 b1 b2 b3 c1 c2 c3 p1 p2 p3 where tm: "tm = \<lparr>m_basisX = \<lparr>vx = a1, vy = a2, vz = a3\<rparr>,
     m_basisY = \<lparr>vx = b1, vy = b2, vz = b3\<rparr>, m_basisZ = \<lparr>vx = c1, vy = c2, vz = c3\<rparr>,
     m_position = \<lparr>vx = p1, vy = p2, vz = p3\<rparr>\<rparr>"
    by (rule Transform_cases)
  obtain x y z where v: "v = \<lparr>vx = x, vy = y, vz = z\<rparr>" by (cases v) auto
  define e where "e = 1 / Transform_det tm"
  have e: "e * (a1 * (b2 * c3 - b3 * c2) + a2 * (b3 * c1 - b1 * c3) + a3 * (b1 * c2 - b2 * c1)) = 1"
    using assms by (simp add: e_def tm Transform_det_def vec_defs)
  have "vx (Transform_mul (Transform_InvertFull tm) (Transform_mul tm v)) = x"
    unfolding Transform_InvertFull_def e_def [symmetric] Let_def
    using e by (simp add: tm v Transform_mul_def vec_defs) algebra
  moreover have "vy (Transform_mul (Transform_InvertFull tm) (Transform_mul tm v)) = y"
    unfolding Transform_InvertFull_def e_def [symmetric] Let_def
    using e by (simp add: tm v Transform_mul_def vec_defs) algebra
  moreover have "vz (Transform_mul (Transform_InvertFull tm) (Transform_mul tm v)) = z"
    unfolding Transform_InvertFull_def e_def [symmetric] Let_def
    using e by (simp add: tm v Transform_mul_def vec_defs) algebra
  ultimately show ?thesis by (simp add: v)
qed

lemma Transform_inverse_right:
  assumes "Transform_det tm \<noteq> 0"
  shows "Transform_mul tm (Transform_mul (Transform_InvertFull tm) v) = v"
proof -
  obtain a1 a2 a3 b1 b2 b3 c1 c2 c3 p1 p2 p3 where tm: "tm = \<lparr>m_basisX = \<lparr>vx = a1, vy = a2, vz = a3\<rparr>,
     m_basisY = \<lparr>vx = b1, vy = b2, vz = b3\<rparr>, m_basisZ = \<lparr>vx = c1, vy = c2, vz = c3\<rparr>,
     m_position = \<lparr>vx = p1, vy = p2, vz = p3\<rparr>\<rparr>"
    by (rule Transform_cases)
  obtain x y z where v: "v = \<lparr>vx = x, vy = y, vz = z\<rparr>" by (cases v) auto
  define e where "e = 1 / Transform_det tm"
  have e: "e * (a1 * (b2 * c3 - b3 * c2) + a2 * (b3 * c1 - b1 * c3) + a3 * (b1 * c2 - b2 * c1)) = 1"
    using assms by (simp add: e_def tm Transform_det_def vec_defs)
  have "vx (Transform_mul tm (Transform_mul (Transform_InvertFull tm) v)) = x"
    unfolding Transform_InvertFull_def e_def [symmetric] Let_def
    using e by (simp add: tm v Transform_mul_def vec_defs) algebra
  moreover have "vy (Transform_mul tm (Transform_mul (Transform_InvertFull tm) v)) = y"
    unfolding Transform_InvertFull_def e_def [symmetric] Let_def
    using e by (simp add: tm v Transform_mul_def vec_defs) algebra
  moreover have "vz (Transform_mul tm (Transform_mul (Transform_InvertFull tm) v)) = z"
    unfolding Transform_InvertFull_def e_def [symmetric] Let_def
    using e by (simp add: tm v Transform_mul_def vec_defs) algebra
  ultimately show ?thesis by (simp add: v)
qed

lemma collect_inner:
  fixes s :: subtrack
  defines "body \<equiv> \<lambda>k allTimes. let time = sub_GetKeyTime s k
                        in if time \<in> set allTimes then allTimes else allTimes @ [time]"
  assumes d: "distinct acc"
  shows "distinct (for_loop 0 (sub_GetNumKeys s) body acc)
     \<and> set (for_loop 0 (sub_GetNumKeys s) body acc) = set acc \<union> key_time ` set (keys s)"
proof -
  let ?n = "sub_GetNumKeys s"
  let ?P = "\<lambda>k (a :: real list). distinct a \<and> set a = set acc \<union> key_time ` set (take (nat k) (keys s))"
  have "?P ?n (for_loop 0 ?n body acc)"
  proof (rule for_loop_invariant [where P = ?P])
    show "0 \<le> ?n" by (simp add: sub_GetNumKeys_def)
    show "?P 0 acc" using d by simp
  next
    fix k a
    assume k: "0 \<le> k" "k < ?n" and P: "?P k a"
    have len: "nat k < length (keys s)" using k by (simp add: sub_GetNumKeys_def)
    have t: "sub_GetKeyTime s k = key_time (keys s ! nat k)"
      using k by (simp add: sub_GetKeyTime_def)
    have "nat (k + 1) = Suc (nat k)" using k by simp
    then have tk: "take (nat (k + 1)) (keys s) = take (nat k) (keys s) @ [keys s ! nat k]"
      using len by (simp add: take_Suc_conv_app_nth)
    show "?P (k + 1) (body k a)"
      using P by (auto simp: body_def Let_def t tk)
  qed
  then show ?thesis by (simp add: sub_GetNumKeys_def)
qed

lemma collectTimes_spec: "distinct (collectTimes tr) \<and> set (collectTimes tr) = keyTimes tr"
proof -
  let ?body = "\<lambda>i. \<lambda>k allTimes. let time = sub_GetKeyTime (subTrack tr i) k
                        in if time \<in> set allTimes then allTimes else allTimes @ [time]"
  let ?inner = "\<lambda>i acc. for_loop 0 (sub_GetNumKeys (subTrack tr i)) (?body i) acc"
  have c: "collectTimes tr = ?inner 2 (?inner 1 (?inner 0 []))"
    unfolding collectTimes_def by (rule for_loop_0_3)
  have 0: "distinct (?inner 0 []) \<and> set (?inner 0 []) = key_time ` set (keys (subTrack tr 0))"
    using collect_inner [of "[]" "subTrack tr 0"] by simp
  have 1: "distinct (?inner 1 (?inner 0 [])) \<and> set (?inner 1 (?inner 0 [])) =
      key_time ` set (keys (subTrack tr 0)) \<union> key_time ` set (keys (subTrack tr 1))"
    using collect_inner [of "?inner 0 []" "subTrack tr 1"] 0 by simp
  have 2: "distinct (?inner 2 (?inner 1 (?inner 0 []))) \<and> set (?inner 2 (?inner 1 (?inner 0 []))) =
      key_time ` set (keys (subTrack tr 0)) \<union> key_time ` set (keys (subTrack tr 1))
      \<union> key_time ` set (keys (subTrack tr 2))"
    using collect_inner [of "?inner 1 (?inner 0 [])" "subTrack tr 2"] 1 by simp
  show ?thesis
    unfolding c keyTimes_def using 2 by auto
qed

lemma fold_rebaseAt:
  "fold (rebaseAt ops oldTM newInv) ts tr =
   fold (rewriteAt (rebaseVector ops (m_nParamType tr) oldTM newInv)) ts tr"
proof (induction ts arbitrary: tr)
  case Nil
  then show ?case by simp
next
  case (Cons t ts)
  have "rebaseAt ops oldTM newInv t tr = rewriteAt (rebaseVector ops (m_nParamType tr) oldTM newInv) t tr"
    by (simp add: rebaseAt_def rewriteAt_def)
  moreover have "m_nParamType (rewriteAt (rebaseVector ops (m_nParamType tr) oldTM newInv) t tr)
      = m_nParamType tr"
    by (simp add: rewriteAt_frame)
  ultimately show ?case
    using Cons.IH [of "rebaseAt ops oldTM newInv t tr"] by simp
qed

lemma UpdateKeyData_as_pass:
  "UpdateKeyDataAfterParentChanged ops tr oldTM newTM =
   fold (rewriteAt (rebaseVector ops (m_nParamType tr) oldTM (tm_InvertFull ops newTM)))
     (collectTimes tr) tr"
  by (simp add: UpdateKeyDataAfterParentChanged_def Let_def fold_rebaseAt)

lemma stored_key:
  assumes "0 \<le> k" "k < sub_GetNumKeys s"
  shows "\<exists>v. stored s (sub_GetKeyTime s k) = Some v"
proof -
  have "sub_GetKeyTime s k \<in> key_time ` set (keys s)"
    using assms by (simp add: sub_GetKeyTime_def sub_GetNumKeys_def)
  then show ?thesis using stored_dom [of s "sub_GetKeyTime s k"] by auto
qed

lemma keyTimes_stored:
  "t \<in> keyTimes tr \<longleftrightarrow> (\<exists>i. 0 \<le> i \<and> i < 3 \<and> stored (subTrack tr i) t \<noteq> None)"
proof
  assume "t \<in> keyTimes tr"
  then obtain i where "i \<in> {0, 1, 2}" "t \<in> key_time ` set (keys (subTrack tr i))"
    unfolding keyTimes_def by blast
  moreover from this have "stored (subTrack tr i) t \<noteq> None"
    by (simp only: stored_dom)
  ultimately have "0 \<le> i \<and> i < 3 \<and> stored (subTrack tr i) t \<noteq> None"
    by auto
  then show "\<exists>i. 0 \<le> i \<and> i < 3 \<and> stored (subTrack tr i) t \<noteq> None" ..
next
  assume "\<exists>i. 0 \<le> i \<and> i < 3 \<and> stored (subTrack tr i) t \<noteq> None"
  then obtain i :: int where i: "0 \<le> i" "i < 3" "stored (subTrack tr i) t \<noteq> None" by blast
  then have "i = 0 \<or> i = 1 \<or> i = 2" by arith
  moreover from i have "t \<in> key_time ` set (keys (subTrack tr i))"
    by (simp only: stored_dom)
  ultimately show "t \<in> keyTimes tr"
    unfolding keyTimes_def by auto
qed

lemma pass_at_collected:
  assumes len: "3 \<le> length (m_subTracks tr)" and t: "t \<in> keyTimes tr"
  obtains pre post where "collectTimes tr = pre @ t # post" "t \<notin> set pre"
    "\<forall>i. 0 \<le> i \<and> i < 3 \<longrightarrow>
       stored (subTrack (fold (rewriteAt F) (collectTimes tr) tr) i) t =
         Some (Vec3_at (F (readVector (fold (rewriteAt F) pre tr) t)) i)"
proof -
  have ds: "distinct (collectTimes tr)" "set (collectTimes tr) = keyTimes tr"
    using collectTimes_spec [of tr] by simp_all
  with t obtain pre post where sp: "collectTimes tr = pre @ t # post"
    by (metis split_list)
  have d: "distinct (pre @ t # post)" using ds sp by simp
  then have np: "t \<notin> set pre" by simp
  have "\<forall>i. 0 \<le> i \<and> i < 3 \<longrightarrow>
       stored (subTrack (fold (rewriteAt F) (pre @ t # post) tr) i) t =
         Some (Vec3_at (F (readVector (fold (rewriteAt F) pre tr) t)) i)"
    using len d by (intro allI impI fold_rewriteAt_at) simp_all
  with sp np show ?thesis by (intro that [of pre post]) simp_all
qed

lemma pass_roundtrip:
  assumes len: "3 \<le> length (m_subTracks tr)" and F: "\<forall>v. F2 (F1 v) = v"
    and i: "0 \<le> i" "i < 3" and st: "stored (subTrack tr i) t = Some v"
  defines "tr1 \<equiv> fold (rewriteAt F1) (collectTimes tr) tr"
  shows "stored (subTrack (fold (rewriteAt F2) (collectTimes tr1) tr1) i) t = Some v"
proof -
  have t: "t \<in> keyTimes tr"
    using i st by (auto simp: keyTimes_stored)
  from pass_at_collected [OF len t, of F1]
  obtain pre post where sp: "collectTimes tr = pre @ t # post" "t \<notin> set pre"
    and s1: "\<forall>j. 0 \<le> j \<and> j < 3 \<longrightarrow>
       stored (subTrack tr1 j) t = Some (Vec3_at (F1 (readVector (fold (rewriteAt F1) pre tr) t)) j)"
    unfolding tr1_def by blast
  let ?L = "readVector (fold (rewriteAt F1) pre tr) t"
  have Li: "Vec3_at ?L i = v"
    using len i sp(2) st by (rule fold_rewriteAt_pre_read)
  have len1: "3 \<le> length (m_subTracks tr1)"
    using len fold_rewriteAt_frame [of F1 "collectTimes tr" tr] by (simp add: tr1_def)
  have t1: "t \<in> keyTimes tr1"
    using i s1 by (auto simp: keyTimes_stored)
  from pass_at_collected [OF len1 t1, of F2]
  obtain pre' post' where sp': "collectTimes tr1 = pre' @ t # post'" "t \<notin> set pre'"
    and s2: "\<forall>j. 0 \<le> j \<and> j < 3 \<longrightarrow>
       stored (subTrack (fold (rewriteAt F2) (collectTimes tr1) tr1) j) t =
         Some (Vec3_at (F2 (readVector (fold (rewriteAt F2) pre' tr1) t)) j)"
    by blast
  let ?L' = "readVector (fold (rewriteAt F2) pre' tr1) t"
  have "Vec3_at ?L' j = Vec3_at (F1 ?L) j" if "0 \<le> j \<and> j < 3" for j
    using len1 sp'(2) s1 that by (intro fold_rewriteAt_pre_read) simp_all
  then have "?L' = F1 ?L" by (intro Vec3_eqI) simp
  then have "F2 ?L' = ?L" using F by simp
  with s2 i Li show ?thesis by simp
qed

lemma rebaseVector_roundtrip:
  assumes "ptype = Position \<and> tm_invertible ops A \<and> tm_invertible ops B
         \<or> ptype = Scale \<and> tm_reciprocal_scale ops A \<and> tm_reciprocal_scale ops B"
  shows "rebaseVector ops ptype B (tm_InvertFull ops A)
           (rebaseVector ops ptype A (tm_InvertFull ops B) v) = v"
  using assms
proof
  assume "ptype = Position \<and> tm_invertible ops A \<and> tm_invertible ops B"
  then show ?thesis
    by (simp add: rebaseVector_def tm_invertible_def)
next
  assume s: "ptype = Scale \<and> tm_reciprocal_scale ops A \<and> tm_reciprocal_scale ops B"
  let ?a = "tm_ScaleExact ops A" and ?a' = "tm_ScaleExact ops (tm_InvertFull ops A)"
  let ?b = "tm_ScaleExact ops B" and ?b' = "tm_ScaleExact ops (tm_InvertFull ops B)"
  from s have a: "vx ?a' * vx ?a = 1" "vy ?a' * vy ?a = 1" "vz ?a' * vz ?a = 1"
    and b: "vx ?b' * vx ?b = 1" "vy ?b' * vy ?b = 1" "vz ?b' * vz ?b = 1"
    unfolding tm_reciprocal_scale_def Vec3_mul_def by simp_all
  have "vx ?a' * (vx ?b * (vx ?b' * (vx ?a * vx v))) = vx v"
    using a(1) b(1) by algebra
  moreover have "vy ?a' * (vy ?b * (vy ?b' * (vy ?a * vy v))) = vy v"
    using a(2) b(2) by algebra
  moreover have "vz ?a' * (vz ?b * (vz ?b' * (vz ?a * vz v))) = vz v"
    using a(3) b(3) by algebra
  ultimately show ?thesis
    using s by (simp add: rebaseVector_def Vec3_mul_def)
qed

lemmas rebase_defs = UpdateKeyDataAfterParentChanged_def collectTimes_def rebaseAt_def
  rebaseVector_def readVector_def writeVector_def Vec3_set_def Vec3_at_def

lemma matrix_invertible:
  "Transform_det tm \<noteq> 0 \<Longrightarrow> tm_invertible matrixOps tm"
  by (simp add: tm_invertible_def matrixOps_def Transform_inverse_left Transform_inverse_right)

text \<open>
  Whatever the Euler decomposition is: for a new parent that is its own inverse, adding
  the angles of the inverse and subtracting the angles of the parent agree only if the
  angles are all zero.
\<close>

lemma rebaseVector_Rotation_self_inverse:
  assumes "tm_InvertFull ops newTM = newTM"
    and "tm_EulerDegrees ops newTM \<noteq> \<lparr>vx = 0, vy = 0, vz = 0\<rparr>"
  shows "rebaseVector ops Rotation oldTM (tm_InvertFull ops newTM) v
         \<noteq> Vec3_sub (Vec3_add (tm_EulerDegrees ops oldTM) v) (tm_EulerDegrees ops newTM)"
proof
  let ?e = "tm_EulerDegrees ops newTM"
  let ?w = "Vec3_add (tm_EulerDegrees ops oldTM) v"
  assume "rebaseVector ops Rotation oldTM (tm_InvertFull ops newTM) v = Vec3_sub ?w ?e"
  then have "Vec3_add ?e ?w = Vec3_sub ?w ?e"
    using assms(1) by (simp add: rebaseVector_def)
  then have "vx ?e = 0 \<and> vy ?e = 0 \<and> vz ?e = 0"
    by (simp add: Vec3_add_def Vec3_sub_def)
  then have "?e = \<lparr>vx = 0, vy = 0, vz = 0\<rparr>" by simp
  with assms(2) show False by contradiction
qed




text \<open>
  C3 (as stated, refuted). The claim has the round trip restore Position and Scale keys
  for every pair of invertible parents. For Scale the code multiplies by the scale of
  the inverted new parent, which is not the reciprocal scale when the parent turns a
  stretched axis: from the identity to \<open>turnStretchTM\<close> and back, the key (3, 5, 7)
  becomes (6, 5/2, 7).
\<close>

theorem rebase_Scale_roundtrip_counterexample:
  "track_ok trackScale \<and> m_nDimensions trackScale = 3 \<and> m_nParamType trackScale = Scale
   \<and> Transform_det identityTM \<noteq> 0 \<and> Transform_det turnStretchTM \<noteq> 0
   \<and> readVector trackScale 0 = vec3 3 5 7
   \<and> readVector (UpdateKeyDataAfterParentChanged matrixOps
          (UpdateKeyDataAfterParentChanged matrixOps trackScale identityTM turnStretchTM)
          turnStretchTM identityTM) 0 = vec3 6 (5 / 2) 7"
  by (simp add: rebase_defs value_defs eval_defs tm_defs vec_defs trackScale_def identityTM_def
      turnStretchTM_def track_ok_def MAX_SUBTRACKS_def Let_def real_sqrt_divide)

text \<open>
  C3 (amended). For every 3-dimensional Position compound track and every pair of
  invertible parent world transforms A and B, and for every 3-dimensional Scale compound
  track and every pair A and B whose scale is reciprocal under inversion, calling
  \<^verbatim>\<open>UpdateKeyDataAfterParentChanged(A, B)\<close> and then \<^verbatim>\<open>UpdateKeyDataAfterParentChanged(B, A)\<close>
  leaves every sub-track reading, at each of its original key times, the value it read
  before (in exact arithmetic; the value of the key itself when the key times of the
  sub-track are distinct). The two calls may have added keys at times of other axes.
\<close>

theorem rebase_roundtrip:
  assumes ok: "track_ok tr" and three: "m_nDimensions tr = 3"
    and kind: "m_nParamType tr = Position \<and> tm_invertible ops A \<and> tm_invertible ops B
         \<or> m_nParamType tr = Scale \<and> tm_reciprocal_scale ops A \<and> tm_reciprocal_scale ops B"
  shows "\<forall>i k. 0 \<le> i \<and> i < 3 \<and> 0 \<le> k \<and> k < sub_GetNumKeys (subTrack tr i) \<longrightarrow>
     sub_GetValue
       (subTrack (UpdateKeyDataAfterParentChanged ops
                    (UpdateKeyDataAfterParentChanged ops tr A B) B A) i)
       (sub_GetKeyTime (subTrack tr i) k) False
     = sub_GetValue (subTrack tr i) (sub_GetKeyTime (subTrack tr i) k) False
     \<and> (distinct (map key_time (keys (subTrack tr i))) \<longrightarrow>
          sub_GetValue (subTrack tr i) (sub_GetKeyTime (subTrack tr i) k) False
            = key_value (keys (subTrack tr i) ! nat k))"
proof (intro allI impI)
  fix i k :: int
  assume ik: "0 \<le> i \<and> i < 3 \<and> 0 \<le> k \<and> k < sub_GetNumKeys (subTrack tr i)"
  let ?p = "m_nParamType tr"
  let ?F1 = "rebaseVector ops ?p A (tm_InvertFull ops B)"
  let ?F2 = "rebaseVector ops ?p B (tm_InvertFull ops A)"
  let ?tr1 = "UpdateKeyDataAfterParentChanged ops tr A B"
  let ?tr2 = "UpdateKeyDataAfterParentChanged ops ?tr1 B A"
  let ?t = "sub_GetKeyTime (subTrack tr i) k"
  have len: "3 \<le> length (m_subTracks tr)"
    using ok three by (simp add: track_ok_def)
  have tr1: "?tr1 = fold (rewriteAt ?F1) (collectTimes tr) tr"
    by (rule UpdateKeyData_as_pass)
  have p1: "m_nParamType ?tr1 = ?p"
    unfolding tr1 using fold_rewriteAt_frame [of ?F1 "collectTimes tr" tr] by simp
  have tr2: "?tr2 = fold (rewriteAt ?F2) (collectTimes ?tr1) ?tr1"
    using UpdateKeyData_as_pass [of ops ?tr1 B A] by (simp only: p1)
  have F: "\<forall>v. ?F2 (?F1 v) = v"
    using kind by (intro allI rebaseVector_roundtrip)
  obtain v where v: "stored (subTrack tr i) ?t = Some v"
    using stored_key [of k "subTrack tr i"] ik by blast
  have "stored (subTrack (fold (rewriteAt ?F2)
          (collectTimes (fold (rewriteAt ?F1) (collectTimes tr) tr))
          (fold (rewriteAt ?F1) (collectTimes tr) tr)) i) ?t = Some v"
    using len F v ik
    by (intro pass_roundtrip [where ?F1.0 = "?F1" and ?F2.0 = "?F2"]) simp_all
  then have "stored (subTrack ?tr2 i) ?t = Some v"
    unfolding tr2 unfolding tr1 .
  then have restored: "sub_GetValue (subTrack ?tr2 i) ?t False = sub_GetValue (subTrack tr i) ?t False"
    using v by (simp add: GetValue_stored)
  have "sub_GetValue (subTrack tr i) ?t False = key_value (keys (subTrack tr i) ! nat k)"
    if d: "distinct (map key_time (keys (subTrack tr i)))"
  proof -
    have n: "nat k < length (keys (subTrack tr i))" using ik by (auto simp: sub_GetNumKeys_def)
    have "?t = key_time (keys (subTrack tr i) ! nat k)" using ik by (simp add: sub_GetKeyTime_def)
    with keyAt_nth [OF d n] show ?thesis by (simp add: sub_GetValue_def)
  qed
  with restored show "sub_GetValue (subTrack ?tr2 i) ?t False = sub_GetValue (subTrack tr i) ?t False
     \<and> (distinct (map key_time (keys (subTrack tr i))) \<longrightarrow>
          sub_GetValue (subTrack tr i) ?t False = key_value (keys (subTrack tr i) ! nat k))"
    by blast
qed

theorem rebase_roundtrip_witness:
  "track_ok trackXYZ \<and> m_nDimensions trackXYZ = 3 \<and> m_nParamType trackXYZ = Position
   \<and> Transform_det identityTM \<noteq> 0 \<and> Transform_det turnStretchTM \<noteq> 0
   \<and> sub_GetKeyTime (subTrack trackXYZ 0) 1 = 1
   \<and> sub_GetValue (subTrack trackXYZ 0) 1 False = 2
   \<and> sub_GetValue
       (subTrack (UpdateKeyDataAfterParentChanged matrixOps
                    (UpdateKeyDataAfterParentChanged matrixOps trackXYZ identityTM turnStretchTM)
                    turnStretchTM identityTM) 0) 1 False = 2"
proof -
  have ok: "track_ok trackXYZ" and three: "m_nDimensions trackXYZ = 3"
    and pos: "m_nParamType trackXYZ = Position"
    by (simp_all add: track_ok_def trackXYZ_def MAX_SUBTRACKS_def)
  have dA: "Transform_det identityTM \<noteq> 0" and dB: "Transform_det turnStretchTM \<noteq> 0"
    by (simp_all add: tm_defs vec_defs identityTM_def turnStretchTM_def)
  have kind: "m_nParamType trackXYZ = Position \<and> tm_invertible matrixOps identityTM
         \<and> tm_invertible matrixOps turnStretchTM
       \<or> m_nParamType trackXYZ = Scale \<and> tm_reciprocal_scale matrixOps identityTM
         \<and> tm_reciprocal_scale matrixOps turnStretchTM"
    using pos dA dB by (simp add: matrix_invertible)
  have k: "sub_GetKeyTime (subTrack trackXYZ 0) 1 = 1"
    and v: "sub_GetValue (subTrack trackXYZ 0) 1 False = 2"
    and n: "sub_GetNumKeys (subTrack trackXYZ 0) = 2"
    by (simp_all add: value_defs eval_defs trackXYZ_def)
  from rebase_roundtrip [OF ok three kind]
  have "sub_GetValue
       (subTrack (UpdateKeyDataAfterParentChanged matrixOps
                    (UpdateKeyDataAfterParentChanged matrixOps trackXYZ identityTM turnStretchTM)
                    turnStretchTM identityTM) 0)
       (sub_GetKeyTime (subTrack trackXYZ 0) 1) False
     = sub_GetValue (subTrack trackXYZ 0) (sub_GetKeyTime (subTrack trackXYZ 0) 1) False"
    using n by simp
  with ok three pos dA dB k v show ?thesis by simp
qed

end
